theory Spec2Isabelle
  imports Main "HOL-Library.Char_ord" "HOL-Library.List_Lexorder" "HOL-Library.AList"
begin

section \<open>git-backup: a model of \<^verbatim>\<open>git_backup.py\<close>\<close>

text \<open>
  The script lists the repositories of a GitHub user over HTTP, removes from the backup
  directory whatever is not one of them, and then clones or fetches each of them with
  \<^verbatim>\<open>git\<close>. The model follows the script function by function. What the script reads
  from outside (HTTP answers, results of system calls and of \<^verbatim>\<open>git\<close>) comes from an
  environment \<open>env\<close>; what it changes (the entries of the backup directory, the calls it
  makes, the lines it logs) is a record \<open>world\<close> that every function takes and returns.
  Exceptions are values: a function that can raise returns \<open>failure + 'a\<close>.

  Strings are lists of characters with code points below 256. A path
  \<^verbatim>\<open>os.path.join(backup_dir, name)\<close> is modelled by \<open>name\<close> itself, and the backup
  directory by the association list of its direct entries: a name is looked up as one key.
\<close>

subsection \<open>Names and the two regular expressions\<close>

definition LOCK_FILE_NAME :: string where
  "LOCK_FILE_NAME = ''.lock''"

text \<open>The character ranges \<^verbatim>\<open>a-zA-Z0-9\<close> of both patterns.\<close>

definition alnum :: "char \<Rightarrow> bool" where
  "alnum c = ((CHR ''a'' \<le> c \<and> c \<le> CHR ''z'') \<or> (CHR ''A'' \<le> c \<and> c \<le> CHR ''Z'')
     \<or> (CHR ''0'' \<le> c \<and> c \<le> CHR ''9''))"

text \<open>\<^verbatim>\<open>[a-zA-Z0-9_-]\<close>, the first character of a repository name.\<close>

definition name_first :: "char \<Rightarrow> bool" where
  "name_first c = (alnum c \<or> c = CHR ''_'' \<or> c = CHR ''-'')"

text \<open>\<^verbatim>\<open>[a-zA-Z0-9._-]\<close>, the class under the star (and of the user name).\<close>

definition name_rest :: "char \<Rightarrow> bool" where
  "name_rest c = (alnum c \<or> c = CHR ''.'' \<or> c = CHR ''_'' \<or> c = CHR ''-'')"

text \<open>
  \<^verbatim>\<open>re.compile(r"^[a-zA-Z0-9_-][a-zA-Z0-9._-]*").search(name)\<close>: the pattern starts with
  \<^verbatim>\<open>^\<close> and is compiled without \<^verbatim>\<open>re.MULTILINE\<close>, so a match can only begin at
  position 0; the star is greedy and nothing follows it. The result is the matched
  text, or \<open>None\<close> as in Python.
\<close>

fun name_re_search :: "string \<Rightarrow> string option" where
  "name_re_search [] = None"
| "name_re_search (c # cs) =
     (if name_first c then Some (c # takeWhile name_rest cs) else None)"

text \<open>The validator accepts a name when the search finds a match.\<close>

definition valid_name :: "string \<Rightarrow> bool" where
  "valid_name name = (name_re_search name \<noteq> None)"

text \<open>\<^verbatim>\<open>re.search(r"^[a-zA-Z0-9._-]+", args.user)\<close> of \<^verbatim>\<open>_parse_args\<close>.\<close>

fun user_re_search :: "string \<Rightarrow> string option" where
  "user_re_search [] = None"
| "user_re_search (c # cs) =
     (if name_rest c then Some (c # takeWhile name_rest cs) else None)"

text \<open>
  The whole-string reading of the pattern, as the specification words it: the first
  character in \<^verbatim>\<open>[A-Za-z0-9_-]\<close>, every later one in \<^verbatim>\<open>[A-Za-z0-9._-]\<close>, to the end.
\<close>

fun name_full_match :: "string \<Rightarrow> bool" where
  "name_full_match [] = False"
| "name_full_match (c # cs) = (name_first c \<and> list_all name_rest cs)"

text \<open>
  \<^verbatim>\<open>name.lower()\<close>, the sort key of \<^verbatim>\<open>_backup\<close>. Below 256 the upper-case code points
  are \<^verbatim>\<open>A\<close> to \<^verbatim>\<open>Z\<close> and 192 to 222 without 215 (the multiplication sign); each has its
  lower-case form 32 places higher.
\<close>

definition lower_char :: "char \<Rightarrow> char" where
  "lower_char c =
     (let n = (of_char c :: nat)
      in if (65 \<le> n \<and> n \<le> 90) \<or> (192 \<le> n \<and> n \<le> 222 \<and> n \<noteq> 215)
         then char_of (n + 32) else c)"

definition lower :: "string \<Rightarrow> string" where
  "lower name = map lower_char name"

subsection \<open>The world the script acts on\<close>

datatype node = RegularFile | Directory

type_synonym directory = "(string \<times> node) list"

datatype level = DEBUG | INFO | WARNING | ERROR

text \<open>One constructor per logging call of the script, with the arguments it formats.\<close>

datatype message =
    UserHasRepositories string nat "string list"
  | InvalidRepositoryName string
  | UserHasNoRepositories string
  | Removing string
  | RemoveDeletedRepository string
  | FailedToRemove
  | TooManyRepositories string
  | Syncing string
  | FailedToSync string
  | Mirroring string
  | FailedToMirror string
  | ExitingLocked
  | FailedToDeleteLockFile string

text \<open>
  The calls that reach outside the process: an HTTP request (URL and page), the three
  \<^verbatim>\<open>git\<close> commands, \<^verbatim>\<open>os.rename\<close>, \<^verbatim>\<open>shutil.rmtree\<close> and \<^verbatim>\<open>os.unlink\<close>.
\<close>

datatype call =
    HttpGet string nat
  | GitClone string string
  | GitGc string
  | GitFetch string
  | Rename string string
  | Rmtree string
  | Unlink string

text \<open>
  \<open>dir\<close> is the backup directory, \<open>trace\<close> the calls made so far, each with the
  directory as that call left it, \<open>logs\<close> the logging calls made so far.
\<close>

record world =
  dir :: directory
  trace :: "(call \<times> directory) list"
  logs :: "(level \<times> message) list"

definition did :: "call \<Rightarrow> directory \<Rightarrow> world \<Rightarrow> world" where
  "did c d s = s\<lparr>dir := d, trace := trace s @ [(c, d)]\<rparr>"

definition log :: "level \<Rightarrow> message \<Rightarrow> world \<Rightarrow> world" where
  "log l m s = s\<lparr>logs := logs s @ [(l, m)]\<rparr>"

definition calls :: "world \<Rightarrow> call list" where
  "calls s = map fst (trace s)"

definition entries :: "world \<Rightarrow> string list" where
  "entries s = map fst (dir s)"

subsection \<open>Exceptions\<close>

definition ENOENT :: nat where
  "ENOENT = 2"

text \<open>Exceptions of Python itself that nothing in the script catches.\<close>

datatype exn = KeyError | TypeError | AttributeError

text \<open>What \<^verbatim>\<open>_get_user_repositories\<close> wraps into its \<^verbatim>\<open>Error\<close>.\<close>

datatype listing_failure = RequestException | BadStatus string | InvalidResponse

text \<open>The script's own \<^verbatim>\<open>Error\<close>, one constructor per message.\<close>

datatype error =
    FailedToGetList string listing_failure
  | UnableToList nat
  | FailedToCheck string nat
  | InvalidBackupDir
  | PidFileLocked
  | PidFileLock

datatype failure = Error error | ExecutionError | Uncaught exn

subsection \<open>The environment\<close>

text \<open>
  A decoded JSON value. \<open>JObj\<close> holds the decoded dictionary as an association list
  (the first binding of a key counts); numbers are integers.
\<close>

datatype json =
    JNull
  | JBool bool
  | JNum int
  | JStr string
  | JArr "json list"
  | JObj "(string \<times> json) list"

text \<open>
  What the script reads of a \<^verbatim>\<open>requests\<close> response: \<open>body\<close> is what
  \<^verbatim>\<open>response.json()\<close> returns, \<open>None\<close> when it raises \<^verbatim>\<open>ValueError\<close>.
\<close>

record response =
  status_code :: nat
  reason :: string
  content_type :: "string option"
  body :: "json option"

datatype http_result = RequestFailed | Response response

text \<open>
  \<^verbatim>\<open>git clone --mirror url path\<close> either succeeds, or fails; \<open>CloneFailed True\<close> is a
  failure after which the path exists (an interrupted clone), \<open>CloneFailed False\<close> one
  that leaves the directory as it was.
\<close>

datatype clone_result = Cloned | CloneFailed bool

datatype pidfile_result = Acquired | Locked | LockFailed

text \<open>
  The outcome of every call the script makes, by the call's arguments. A system call
  yields the \<^verbatim>\<open>errno\<close> it raises, or \<open>None\<close>; \<open>rmtree_res\<close> gives the number of errors
  \<^verbatim>\<open>shutil.rmtree\<close> reports to \<^verbatim>\<open>onerror\<close> and whether the tree is gone all the same;
  \<open>samefile_res\<close> is the \<^verbatim>\<open>errno\<close> or the answer of \<^verbatim>\<open>os.path.samefile(backup_dir, d)\<close>;
  \<open>pidfile_res\<close> is the outcome of \<^verbatim>\<open>psys.daemon.acquire_pidfile\<close>, a library call.
\<close>

record env =
  requests_get :: "string \<Rightarrow> nat \<Rightarrow> http_result"
  listdir_err :: "nat option"
  lstat_err :: "string \<Rightarrow> nat option"
  rmtree_res :: "string \<Rightarrow> nat \<times> bool"
  unlink_err :: "string \<Rightarrow> nat option"
  clone_res :: "string \<Rightarrow> string \<Rightarrow> clone_result"
  gc_ok :: "string \<Rightarrow> bool"
  fetch_ok :: "string \<Rightarrow> bool"
  rename_err :: "string \<Rightarrow> string \<Rightarrow> nat option"
  samefile_res :: "string \<Rightarrow> nat + bool"
  home_dir :: string
  pidfile_res :: pidfile_result

subsection \<open>System calls and \<^verbatim>\<open>git\<close>\<close>

definition path_exists :: "string \<Rightarrow> world \<Rightarrow> bool" where
  "path_exists path s = (map_of (dir s) path \<noteq> None)"

definition os_listdir :: "env \<Rightarrow> world \<Rightarrow> nat + string list" where
  "os_listdir e s = (case listdir_err e of Some n \<Rightarrow> Inl n | None \<Rightarrow> Inr (entries s))"

definition os_lstat :: "env \<Rightarrow> string \<Rightarrow> world \<Rightarrow> nat + node" where
  "os_lstat e path s =
     (case lstat_err e path of
        Some n \<Rightarrow> Inl n
      | None \<Rightarrow> (case map_of (dir s) path of None \<Rightarrow> Inl ENOENT | Some nd \<Rightarrow> Inr nd))"

definition os_unlink :: "env \<Rightarrow> string \<Rightarrow> world \<Rightarrow> (nat + unit) \<times> world" where
  "os_unlink e path s =
     (case unlink_err e path of
        Some n \<Rightarrow> (Inl n, did (Unlink path) (dir s) s)
      | None \<Rightarrow> (Inr (), did (Unlink path) (AList.delete path (dir s)) s))"

text \<open>
  \<^verbatim>\<open>shutil.rmtree(path, onerror=...)\<close>: never raises; each error it meets goes to
  \<^verbatim>\<open>log_error\<close>, which logs one line at error level. Without an error the tree is gone.
\<close>

definition shutil_rmtree :: "env \<Rightarrow> string \<Rightarrow> world \<Rightarrow> world" where
  "shutil_rmtree e path s =
     (let (n, gone) = rmtree_res e path;
          s' = did (Rmtree path) (if n = 0 \<or> gone then AList.delete path (dir s) else dir s) s
      in s'\<lparr>logs := logs s' @ replicate n (ERROR, FailedToRemove)\<rparr>)"

definition os_rename :: "env \<Rightarrow> string \<Rightarrow> string \<Rightarrow> world \<Rightarrow> (nat + unit) \<times> world" where
  "os_rename e src dst s =
     (case rename_err e src dst of
        Some n \<Rightarrow> (Inl n, did (Rename src dst) (dir s) s)
      | None \<Rightarrow>
          (case map_of (dir s) src of
             None \<Rightarrow> (Inl ENOENT, did (Rename src dst) (dir s) s)
           | Some nd \<Rightarrow>
               (Inr (), did (Rename src dst) (AList.update dst nd (AList.delete src (dir s))) s)))"

text \<open>
  \<^verbatim>\<open>_git(*args)\<close> for the three argument lists the script uses. A failing command raises
  \<^verbatim>\<open>psh.ExecutionError\<close>. Fetch and garbage collection change the inside of a mirror,
  not the entries of the backup directory.
\<close>

definition git_clone_mirror :: "env \<Rightarrow> string \<Rightarrow> string \<Rightarrow> world \<Rightarrow> (failure + unit) \<times> world" where
  "git_clone_mirror e url path s =
     (case clone_res e url path of
        Cloned \<Rightarrow> (Inr (), did (GitClone url path) (AList.update path Directory (dir s)) s)
      | CloneFailed left \<Rightarrow>
          (Inl ExecutionError,
           did (GitClone url path)
             (if left \<and> \<not> path_exists path s then AList.update path Directory (dir s) else dir s) s))"

definition git_gc :: "env \<Rightarrow> string \<Rightarrow> world \<Rightarrow> (failure + unit) \<times> world" where
  "git_gc e path s =
     (if gc_ok e path then Inr () else Inl ExecutionError, did (GitGc path) (dir s) s)"

definition git_fetch :: "env \<Rightarrow> string \<Rightarrow> world \<Rightarrow> (failure + unit) \<times> world" where
  "git_fetch e path s =
     (if fetch_ok e path then Inr () else Inl ExecutionError, did (GitFetch path) (dir s) s)"

subsection \<open>\<^verbatim>\<open>_get_user_repositories\<close>\<close>

definition max_pages :: nat where
  "max_pages = 100"

definition repos_url :: "string \<Rightarrow> string" where
  "repos_url user = ''https://api.github.com/users/'' @ user @ ''/repos''"

text \<open>
  The \<^verbatim>\<open>try\<close> block of one page: the status check, the check of the
  \<^verbatim>\<open>Content-Type\<close> header, \<^verbatim>\<open>response.json()\<close> and the \<^verbatim>\<open>isinstance\<close> test, in the
  order of the source. Every failure leaves as the \<^verbatim>\<open>Error\<close> of the outer handler.
\<close>

definition page_result :: "env \<Rightarrow> string \<Rightarrow> nat \<Rightarrow> failure + json list" where
  "page_result e url page =
     (case requests_get e url page of
        RequestFailed \<Rightarrow> Inl (Error (FailedToGetList url RequestException))
      | Response r \<Rightarrow>
          if status_code r \<noteq> 200
          then Inl (Error (FailedToGetList url (BadStatus (reason r))))
          else if content_type r = Some ''application/json''
          then Inl (Error (FailedToGetList url InvalidResponse))
          else (case body r of
                  None \<Rightarrow> Inl (Error (FailedToGetList url InvalidResponse))
                | Some (JArr repos_info) \<Rightarrow> Inr repos_info
                | Some _ \<Rightarrow> Inl (Error (FailedToGetList url InvalidResponse))))"

definition get_page :: "env \<Rightarrow> string \<Rightarrow> nat \<Rightarrow> world \<Rightarrow> (failure + json list) \<times> world" where
  "get_page e url page s = (page_result e url page, did (HttpGet url page) (dir s) s)"

text \<open>\<^verbatim>\<open>repo_info["name"]\<close>: a dictionary is looked up, anything else cannot be indexed by a string.\<close>

fun subscript_name :: "json \<Rightarrow> exn + json" where
  "subscript_name (JObj kvs) =
     (case map_of kvs ''name'' of None \<Rightarrow> Inl KeyError | Some v \<Rightarrow> Inr v)"
| "subscript_name _ = Inl TypeError"

fun hashable :: "json \<Rightarrow> bool" where
  "hashable (JArr _) = False"
| "hashable (JObj _) = False"
| "hashable _ = True"

text \<open>Python's \<^verbatim>\<open>==\<close> on hashable JSON values: \<^verbatim>\<open>True == 1\<close> and \<^verbatim>\<open>False == 0\<close>.\<close>

fun py_eq :: "json \<Rightarrow> json \<Rightarrow> bool" where
  "py_eq (JBool b) (JNum n) = (n = (if b then 1 else 0))"
| "py_eq (JNum n) (JBool b) = (n = (if b then 1 else 0))"
| "py_eq x y = (x = y)"

text \<open>
  The set \<^verbatim>\<open>repos\<close> is a list without repetition, in the order of insertion (Python
  fixes no order for \<^verbatim>\<open>list(repos)\<close>); adding an element equal to one present
  changes nothing.
\<close>

definition set_add :: "json \<Rightarrow> json list \<Rightarrow> json list" where
  "set_add x repos = (if list_ex (py_eq x) repos then repos else repos @ [x])"

text \<open>
  \<^verbatim>\<open>repos.update(repo_info["name"] for repo_info in repos_info)\<close>: the generator yields one
  name at a time, and the first exception ends the call.
\<close>

fun repos_update :: "json list \<Rightarrow> json list \<Rightarrow> exn + json list" where
  "repos_update repos [] = Inr repos"
| "repos_update repos (repo_info # rest) =
     (case subscript_name repo_info of
        Inl x \<Rightarrow> Inl x
      | Inr name \<Rightarrow>
          if hashable name then repos_update (set_add name repos) rest else Inl TypeError)"

text \<open>
  The \<^verbatim>\<open>for ... else\<close> loop over the pages still to request: \<^verbatim>\<open>break\<close> on an empty page
  returns without the \<^verbatim>\<open>else\<close> branch, which runs when the pages are used up.
\<close>

fun pages_loop :: "env \<Rightarrow> string \<Rightarrow> nat list \<Rightarrow> json list \<Rightarrow> world
    \<Rightarrow> (failure + json list) \<times> world" where
  "pages_loop e url [] repos s = (Inr repos, log ERROR (TooManyRepositories url) s)"
| "pages_loop e url (page # pages) repos s =
     (case get_page e url page s of
        (Inl err, s') \<Rightarrow> (Inl err, s')
      | (Inr repos_info, s') \<Rightarrow>
          if repos_info = [] then (Inr repos, s')
          else (case repos_update repos repos_info of
                  Inl x \<Rightarrow> (Inl (Uncaught x), s')
                | Inr repos' \<Rightarrow> pages_loop e url pages repos' s'))"

definition get_user_repositories :: "env \<Rightarrow> string \<Rightarrow> world \<Rightarrow> (failure + json list) \<times> world" where
  "get_user_repositories e user s = pages_loop e (repos_url user) [1..<max_pages + 1] [] s"

subsection \<open>\<^verbatim>\<open>_rm_path\<close> and \<^verbatim>\<open>_cleanup\<close>\<close>

definition rm_path :: "env \<Rightarrow> string \<Rightarrow> world \<Rightarrow> world" where
  "rm_path e path s =
     (case os_lstat e path s of
        Inl n \<Rightarrow> log ERROR FailedToRemove s
      | Inr nd \<Rightarrow>
          if nd = Directory then shutil_rmtree e path s
          else (case os_unlink e path s of
                  (Inl n, s') \<Rightarrow> log ERROR FailedToRemove s'
                | (Inr u, s') \<Rightarrow> s'))"

text \<open>
  \<^verbatim>\<open>set(files) - set(repositories) - {_LOCK_FILE_NAME}\<close>, iterated in the order of the
  listing (Python fixes no order for the iteration of a set).
\<close>

definition cleanup_files :: "string list \<Rightarrow> string list \<Rightarrow> string list" where
  "cleanup_files files repositories =
     filter (\<lambda>file_name. file_name \<notin> set repositories \<and> file_name \<noteq> LOCK_FILE_NAME)
       (remdups files)"

definition startswith_dot :: "string \<Rightarrow> bool" where
  "startswith_dot file_name = (case file_name of [] \<Rightarrow> False | c # cs \<Rightarrow> c = CHR ''.'')"

definition cleanup_file :: "env \<Rightarrow> string \<Rightarrow> world \<Rightarrow> world" where
  "cleanup_file e file_name s =
     rm_path e file_name
       (if startswith_dot file_name then log DEBUG (Removing file_name) s
        else log WARNING (RemoveDeletedRepository file_name) s)"

definition cleanup :: "env \<Rightarrow> string list \<Rightarrow> world \<Rightarrow> (failure + unit) \<times> world" where
  "cleanup e repositories s =
     (case os_listdir e s of
        Inl n \<Rightarrow> (Inl (Error (UnableToList n)), s)
      | Inr files \<Rightarrow> (Inr (), fold (cleanup_file e) (cleanup_files files repositories) s))"

subsection \<open>\<^verbatim>\<open>_mirror_repo\<close>\<close>

definition mirror_repo :: "env \<Rightarrow> string \<Rightarrow> string \<Rightarrow> world \<Rightarrow> world" where
  "mirror_repo e name url s =
     (let backup_path = name; temp_path = ''.'' @ name
      in if path_exists backup_path s
         then (case git_fetch e backup_path (log INFO (Syncing name) s) of
                 (Inl err, s') \<Rightarrow> log ERROR (FailedToSync name) s'
               | (Inr u, s') \<Rightarrow> s')
         else (case git_clone_mirror e url temp_path (log INFO (Mirroring name) s) of
                 (Inl err, s1) \<Rightarrow> log ERROR (FailedToMirror name) s1
               | (Inr u, s1) \<Rightarrow>
                   (case git_gc e temp_path s1 of
                      (Inl err, s2) \<Rightarrow> log ERROR (FailedToMirror name) s2
                    | (Inr u, s2) \<Rightarrow>
                        (case os_rename e temp_path backup_path s2 of
                           (Inl n, s3) \<Rightarrow> log ERROR (FailedToMirror name) s3
                         | (Inr u, s3) \<Rightarrow> s3))))"

subsection \<open>\<^verbatim>\<open>_backup\<close>\<close>

definition clone_url :: "string \<Rightarrow> string \<Rightarrow> string" where
  "clone_url user name = ''https://github.com/'' @ user @ ''/'' @ name @ ''.git''"

text \<open>
  \<^verbatim>\<open>sorted(names, key=lambda name: name.lower())\<close>: the key is computed for every
  element, so one name that is not a string raises \<^verbatim>\<open>AttributeError\<close>; the sort is stable.
\<close>

fun as_str :: "json \<Rightarrow> string option" where
  "as_str (JStr name) = Some name"
| "as_str _ = None"

definition sorted_by_lower :: "json list \<Rightarrow> exn + string list" where
  "sorted_by_lower names =
     (case those (map as_str names) of
        None \<Rightarrow> Inl AttributeError
      | Some ns \<Rightarrow> Inr (sort_key lower ns))"

text \<open>
  The loop over the copy \<^verbatim>\<open>repositories[:]\<close> (first argument) that removes from
  \<^verbatim>\<open>repositories\<close> (second argument) each name the pattern does not match.
\<close>

fun drop_invalid :: "string list \<Rightarrow> string list \<Rightarrow> world \<Rightarrow> string list \<times> world" where
  "drop_invalid [] repositories s = (repositories, s)"
| "drop_invalid (name # rest) repositories s =
     (if name_re_search name = None
      then drop_invalid rest (remove1 name repositories)
             (log ERROR (InvalidRepositoryName name) s)
      else drop_invalid rest repositories s)"

definition validate :: "string \<Rightarrow> string list \<Rightarrow> world \<Rightarrow> string list \<times> world" where
  "validate user repositories s =
     (if repositories \<noteq> []
      then drop_invalid repositories repositories
             (log INFO (UserHasRepositories user (length repositories) repositories) s)
      else (repositories, log INFO (UserHasNoRepositories user) s))"

definition mirror_all :: "env \<Rightarrow> string \<Rightarrow> string list \<Rightarrow> world \<Rightarrow> world" where
  "mirror_all e user repositories s =
     fold (\<lambda>name. mirror_repo e name (clone_url user name)) repositories s"

definition backup :: "env \<Rightarrow> string \<Rightarrow> world \<Rightarrow> (failure + unit) \<times> world" where
  "backup e user s =
     (case get_user_repositories e user s of
        (Inl err, s1) \<Rightarrow> (Inl err, s1)
      | (Inr names, s1) \<Rightarrow>
          (case sorted_by_lower names of
             Inl x \<Rightarrow> (Inl (Uncaught x), s1)
           | Inr sorted_names \<Rightarrow>
               (let (repositories, s2) = validate user sorted_names s1
                in case cleanup e repositories s2 of
                     (Inl err, s3) \<Rightarrow> (Inl err, s3)
                   | (Inr u, s3) \<Rightarrow> (Inr (), mirror_all e user repositories s3))))"

subsection \<open>\<^verbatim>\<open>_check_backup_dir\<close> and \<^verbatim>\<open>main\<close>\<close>

fun check_against :: "env \<Rightarrow> string list \<Rightarrow> failure + unit" where
  "check_against e [] = Inr ()"
| "check_against e (forbidden_dir # rest) =
     (case samefile_res e forbidden_dir of
        Inl n \<Rightarrow>
          if n \<noteq> ENOENT then Inl (Error (FailedToCheck forbidden_dir n))
          else check_against e rest
      | Inr forbidden \<Rightarrow>
          if forbidden then Inl (Error InvalidBackupDir) else check_against e rest)"

definition check_backup_dir :: "env \<Rightarrow> failure + unit" where
  "check_backup_dir e = check_against e [''/'', home_dir e]"

text \<open>
  How the process ends: status 0, \<^verbatim>\<open>sys.exit("Error: ...")\<close> (status 1) for an \<^verbatim>\<open>Error\<close>
  that reaches \<^verbatim>\<open>main\<close>, or a traceback (status 1) for any other exception.
\<close>

datatype exit = ExitOk | ExitError error | Traceback

fun exit_code :: "exit \<Rightarrow> nat" where
  "exit_code ExitOk = 0"
| "exit_code (ExitError err) = 1"
| "exit_code Traceback = 1"

record args =
  user :: string
  cron :: bool

text \<open>
  The \<^verbatim>\<open>finally\<close> clause of \<^verbatim>\<open>main\<close>: the lock file is unlinked, and a failure to do so
  is logged.
\<close>

definition release_lock :: "env \<Rightarrow> world \<Rightarrow> world" where
  "release_lock e s =
     (case os_unlink e LOCK_FILE_NAME s of
        (Inl n, s') \<Rightarrow> log ERROR (FailedToDeleteLockFile LOCK_FILE_NAME) s'
      | (Inr u, s') \<Rightarrow> s')"

text \<open>
  A successful \<^verbatim>\<open>acquire_pidfile\<close> leaves the lock file in the directory: it creates
  the file when there is none.
\<close>

definition locked_world :: "world \<Rightarrow> world" where
  "locked_world s = s\<lparr>dir := (if path_exists LOCK_FILE_NAME s then dir s
                               else dir s @ [(LOCK_FILE_NAME, RegularFile)])\<rparr>"

text \<open>\<^verbatim>\<open>main\<close> after the arguments are parsed.\<close>

definition main :: "env \<Rightarrow> args \<Rightarrow> world \<Rightarrow> exit \<times> world" where
  "main e a s =
     (case check_backup_dir e of
        Inl err \<Rightarrow> (case err of Error m \<Rightarrow> (ExitError m, s) | _ \<Rightarrow> (Traceback, s))
      | Inr u \<Rightarrow>
          (case pidfile_res e of
             Locked \<Rightarrow>
               if cron a then (ExitOk, log DEBUG ExitingLocked s)
               else (ExitError PidFileLocked, s)
           | LockFailed \<Rightarrow> (ExitError PidFileLock, s)
           | Acquired \<Rightarrow>
               (let (r, s1) = backup e (user a) (locked_world s);
                    s2 = release_lock e s1
                in case r of
                     Inr u \<Rightarrow> (ExitOk, s2)
                   | Inl (Error m) \<Rightarrow> (ExitError m, s2)
                   | Inl other \<Rightarrow> (Traceback, s2))))"

subsection \<open>Notions used in the statements\<close>

text \<open>The world after requesting the pages \<open>ps\<close> of \<open>url\<close>: the directory is as before.\<close>

definition requested :: "string \<Rightarrow> nat list \<Rightarrow> world \<Rightarrow> world" where
  "requested url ps s = s\<lparr>trace := trace s @ map (\<lambda>p. (HttpGet url p, dir s)) ps\<rparr>"

text \<open>
  A clone of \<open>n\<close> from \<open>url\<close> gets published: clone, garbage collection and rename all
  succeed.
\<close>

definition published :: "env \<Rightarrow> string \<Rightarrow> string \<Rightarrow> bool" where
  "published e url n \<longleftrightarrow>
     clone_res e url (''.'' @ n) = Cloned \<and> gc_ok e (''.'' @ n) \<and> rename_err e (''.'' @ n) n = None"

text \<open>The calls \<^verbatim>\<open>_mirror_repo\<close> can make for the repository \<open>n\<close>.\<close>

definition sync_calls :: "string \<Rightarrow> string \<Rightarrow> call set" where
  "sync_calls url n = {GitFetch n, GitClone url (''.'' @ n), GitGc (''.'' @ n), Rename (''.'' @ n) n}"



subsection \<open>Example environments\<close>

text \<open>An environment without network in which every system call and command succeeds.\<close>

definition quiet :: env where
  "quiet = \<lparr>requests_get = (\<lambda>url page. RequestFailed), listdir_err = None,
     lstat_err = (\<lambda>path. None), rmtree_res = (\<lambda>path. (0, True)), unlink_err = (\<lambda>path. None),
     clone_res = (\<lambda>url path. Cloned), gc_ok = (\<lambda>path. True), fetch_ok = (\<lambda>path. True),
     rename_err = (\<lambda>src dst. None), samefile_res = (\<lambda>d. Inr False), home_dir = ''/home/u'',
     pidfile_res = Acquired\<rparr>"

text \<open>A 200 response as GitHub sends it, and one entry of its list.\<close>

definition ok_response :: "json list \<Rightarrow> http_result" where
  "ok_response infos = Response \<lparr>status_code = 200, reason = ''OK'',
     content_type = Some ''application/json; charset=utf-8'', body = Some (JArr infos)\<rparr>"

definition repo :: "string \<Rightarrow> json" where
  "repo n = JObj [(''id'', JNum 1), (''name'', JStr n)]"

text \<open>The environment \<open>quiet\<close> with a server that answers page \<open>p\<close> with the list \<open>pages p\<close>.\<close>

definition serving :: "(nat \<Rightarrow> json list) \<Rightarrow> env" where
  "serving pages = quiet\<lparr>requests_get := (\<lambda>url page. ok_response (pages page))\<rparr>"

text \<open>A server that sends the same list with the header \<^verbatim>\<open>Content-Type: application/json\<close>.\<close>

definition plain_json_server :: env where
  "plain_json_server = quiet\<lparr>requests_get := (\<lambda>url page. Response \<lparr>status_code = 200,
     reason = ''OK'', content_type = Some ''application/json'',
     body = Some (JArr [repo ''alpha''])\<rparr>)\<rparr>"

text \<open>The world at the start of a run over the directory \<open>d\<close>.\<close>

definition start :: "directory \<Rightarrow> world" where
  "start d = \<lparr>dir = d, trace = [], logs = []\<rparr>"


text \<open>
  The directory of the specification's scenario: the mirror \<^verbatim>\<open>alpha\<close>, an abandoned
  temporary clone and the lock file.
\<close>

definition scenario :: world where
  "scenario = start [(''alpha'', Directory), (''.old-tmp'', Directory), (''.lock'', RegularFile)]"

text \<open>Two pages that share a name, and empty pages after them.\<close>

definition two_pages :: "nat \<Rightarrow> string list" where
  "two_pages p = (if p = 1 then [''alpha'', ''beta'']
                  else if p = 2 then [''beta'', ''gamma''] else [])"

definition two_page_server :: env where
  "two_page_server = serving (\<lambda>p. map repo (two_pages p))"

definition interactive :: args where
  "interactive = \<lparr>user = ''u'', cron = False\<rparr>"


text \<open>
  The user has the repositories \<^verbatim>\<open>alpha\<close> and \<^verbatim>\<open>Beta\<close>; every fetch, clone and removal
  fails.
\<close>

definition flaky :: env where
  "flaky = (serving (\<lambda>p. if p = 1 then [repo ''alpha'', repo ''Beta''] else []))\<lparr>
     fetch_ok := (\<lambda>path. False), clone_res := (\<lambda>url path. CloneFailed True),
     rmtree_res := (\<lambda>path. (1, False)), unlink_err := (\<lambda>path. Some 13)\<rparr>"

text \<open>
  The user's only repository is \<^verbatim>\<open>.github\<close>, and the directory has an entry of that
  name beside the lock file.
\<close>

definition dot_github :: env where
  "dot_github = serving (\<lambda>p. if p = 1 then [repo ''.github''] else [])"

definition with_dot_github :: world where
  "with_dot_github = start [(''.github'', Directory), (''.lock'', RegularFile)]"





section \<open>Properties\<close>

subsection \<open>Auxiliary facts\<close>

lemma dir_log [simp]: "dir (log l m s) = dir s"
  and trace_log [simp]: "trace (log l m s) = trace s"
  and logs_log [simp]: "logs (log l m s) = logs s @ [(l, m)]"
  by (simp_all add: log_def)

lemma dir_did [simp]: "dir (did c d s) = d"
  and trace_did [simp]: "trace (did c d s) = trace s @ [(c, d)]"
  and logs_did [simp]: "logs (did c d s) = logs s"
  by (simp_all add: did_def)

lemma calls_log [simp]: "calls (log l m s) = calls s"
  and calls_did [simp]: "calls (did c d s) = calls s @ [c]"
  and entries_log [simp]: "entries (log l m s) = entries s"
  and entries_did [simp]: "entries (did c d s) = map fst d"
  by (simp_all add: calls_def entries_def)

lemma path_exists_iff: "path_exists p s \<longleftrightarrow> p \<in> set (entries s)"
  by (simp add: path_exists_def entries_def map_of_eq_None_iff)

lemma path_exists_log [simp]: "path_exists p (log l m s) = path_exists p s"
  by (simp add: path_exists_def)

lemma valid_name_iff: "valid_name n \<longleftrightarrow> (\<exists>c cs. n = c # cs \<and> name_first c)"
  by (cases n) (auto simp: valid_name_def)

lemma name_first_not_dot: "name_first c \<Longrightarrow> c \<noteq> CHR ''.''"
  by (auto simp: name_first_def alnum_def)

lemma valid_no_dot: "valid_name n \<Longrightarrow> \<not> startswith_dot n"
  by (cases n) (auto simp: valid_name_def startswith_dot_def dest: name_first_not_dot split: if_splits)

lemma full_match_accepted: "name_full_match n \<Longrightarrow> name_re_search n = Some n"
  by (cases n) (auto simp: list_all_iff takeWhile_eq_all_conv)

lemma dot_rejected: "startswith_dot n \<Longrightarrow> name_re_search n = None"
  using valid_no_dot[of n] by (cases "name_re_search n") (auto simp: valid_name_def)

lemma drop_invalid_fst:
  "\<forall>p\<in>set pre. valid_name p \<Longrightarrow>
   fst (drop_invalid xs (pre @ xs) s) = pre @ filter valid_name xs"
proof (induction xs arbitrary: pre s)
  case Nil
  then show ?case by simp
next
  case (Cons x xs)
  show ?case
  proof (cases "name_re_search x = None")
    case True
    have "x \<notin> set pre" using Cons.prems True by (auto simp: valid_name_def)
    then have "remove1 x (pre @ x # xs) = pre @ xs"
      by (simp add: remove1_append)
    with True Cons.IH[OF Cons.prems] show ?thesis by (simp add: valid_name_def)
  next
    case False
    then have "\<forall>p\<in>set (pre @ [x]). valid_name p" using Cons.prems by (auto simp: valid_name_def)
    from Cons.IH[OF this] False show ?thesis by (auto simp: valid_name_def)
  qed
qed

lemma drop_invalid_world:
  "dir (snd (drop_invalid xs ys s)) = dir s \<and> trace (snd (drop_invalid xs ys s)) = trace s"
  by (induction xs arbitrary: ys s) auto

lemma validate_fst: "fst (validate u ns s) = filter valid_name ns"
  using drop_invalid_fst[of "[]" ns] by (simp add: validate_def)

lemma validate_world:
  "dir (snd (validate u ns s)) = dir s \<and> trace (snd (validate u ns s)) = trace s"
  by (simp add: validate_def drop_invalid_world)

lemma get_page_simps [simp]:
  "fst (get_page e url p s) = page_result e url p"
  "snd (get_page e url p s) = did (HttpGet url p) (dir s) s"
  by (simp_all add: get_page_def)

lemma requested_simps [simp]:
  "dir (requested url ps s) = dir s"
  "trace (requested url ps s) = trace s @ map (\<lambda>p. (HttpGet url p, dir s)) ps"
  "logs (requested url ps s) = logs s"
  "calls (requested url ps s) = calls s @ map (HttpGet url) ps"
  "entries (requested url ps s) = entries s"
  by (simp_all add: requested_def calls_def entries_def comp_def)

lemma requested_Nil [simp]: "requested url [] s = s"
  by (simp add: requested_def)

lemma requested_Cons: "requested url (p # ps) s = requested url ps (did (HttpGet url p) (dir s) s)"
  by (simp add: requested_def did_def)

lemma requested_append: "requested url (ps @ qs) s = requested url qs (requested url ps s)"
  by (simp add: requested_def)

lemma list_ex_py_eq_str [simp]: "list_ex (py_eq (JStr n)) (map JStr rs) \<longleftrightarrow> n \<in> set rs"
  by (induction rs) auto

lemma set_add_str: "set_add (JStr n) (map JStr rs) = map JStr (if n \<in> set rs then rs else rs @ [n])"
  by (simp add: set_add_def)

lemma repos_update_strs:
  "map subscript_name infos = map (\<lambda>n. Inr (JStr n)) nm \<Longrightarrow>
   \<exists>rs'. repos_update (map JStr rs) infos = Inr (map JStr rs') \<and> set rs' = set rs \<union> set nm
       \<and> (distinct rs \<longrightarrow> distinct rs')"
proof (induction infos arbitrary: nm rs)
  case Nil
  then show ?case by (intro exI[of _ rs]) simp
next
  case (Cons i infos)
  then obtain n nm' where nm: "nm = n # nm'" "subscript_name i = Inr (JStr n)"
    "map subscript_name infos = map (\<lambda>n. Inr (JStr n)) nm'"
    by (cases nm) auto
  let ?rs = "if n \<in> set rs then rs else rs @ [n]"
  from Cons.IH[OF nm(3), of ?rs] obtain rs' where
    "repos_update (map JStr ?rs) infos = Inr (map JStr rs')" "set rs' = set ?rs \<union> set nm'"
    "distinct ?rs \<longrightarrow> distinct rs'" by blast
  then show ?case using nm(1,2)
    by (intro exI[of _ rs']) (auto simp: set_add_str split: if_splits)
qed

lemma pages_loop_full:
  assumes "\<forall>p\<in>set ps. page_result e url p = Inr (infos p) \<and> infos p \<noteq> []
             \<and> map subscript_name (infos p) = map (\<lambda>n. Inr (JStr n)) (nm p)"
  shows "\<exists>rs'. pages_loop e url ps (map JStr rs) s
            = (Inr (map JStr rs'), log ERROR (TooManyRepositories url) (requested url ps s))
          \<and> set rs' = set rs \<union> (\<Union>p\<in>set ps. set (nm p)) \<and> (distinct rs \<longrightarrow> distinct rs')"
  using assms
proof (induction ps arbitrary: rs s)
  case Nil
  then show ?case by (intro exI[of _ rs]) simp
next
  case (Cons p ps)
  from Cons.prems have p: "page_result e url p = Inr (infos p)" "infos p \<noteq> []"
    "map subscript_name (infos p) = map (\<lambda>n. Inr (JStr n)) (nm p)" by auto
  from repos_update_strs[OF p(3), of rs] obtain r1 where r1:
    "repos_update (map JStr rs) (infos p) = Inr (map JStr r1)" "set r1 = set rs \<union> set (nm p)"
    "distinct rs \<longrightarrow> distinct r1" by blast
  from Cons.prems have "\<forall>q\<in>set ps. page_result e url q = Inr (infos q) \<and> infos q \<noteq> []
             \<and> map subscript_name (infos q) = map (\<lambda>n. Inr (JStr n)) (nm q)" by auto
  from Cons.IH[OF this, of r1 "did (HttpGet url p) (dir s) s"] obtain rs' where rs':
    "pages_loop e url ps (map JStr r1) (did (HttpGet url p) (dir s) s)
       = (Inr (map JStr rs'), log ERROR (TooManyRepositories url)
            (requested url ps (did (HttpGet url p) (dir s) s)))"
    "set rs' = set r1 \<union> (\<Union>p\<in>set ps. set (nm p))" "distinct r1 \<longrightarrow> distinct rs'" by blast
  show ?case
    using p r1 rs' by (intro exI[of _ rs']) (auto simp: get_page_def requested_Cons)
qed

lemma pages_loop_break:
  assumes "\<forall>p\<in>set ps. page_result e url p = Inr (infos p) \<and> infos p \<noteq> []
             \<and> map subscript_name (infos p) = map (\<lambda>n. Inr (JStr n)) (nm p)"
    and "page_result e url q = Inr []"
  shows "\<exists>rs'. pages_loop e url (ps @ q # rest) (map JStr rs) s
            = (Inr (map JStr rs'), requested url (ps @ [q]) s)
          \<and> set rs' = set rs \<union> (\<Union>p\<in>set ps. set (nm p)) \<and> (distinct rs \<longrightarrow> distinct rs')"
  using assms(1)
proof (induction ps arbitrary: rs s)
  case Nil
  then show ?case using assms(2)
    by (intro exI[of _ rs]) (simp add: get_page_def requested_Cons)
next
  case (Cons p ps)
  from Cons.prems have p: "page_result e url p = Inr (infos p)" "infos p \<noteq> []"
    "map subscript_name (infos p) = map (\<lambda>n. Inr (JStr n)) (nm p)" by auto
  from repos_update_strs[OF p(3), of rs] obtain r1 where r1:
    "repos_update (map JStr rs) (infos p) = Inr (map JStr r1)" "set r1 = set rs \<union> set (nm p)"
    "distinct rs \<longrightarrow> distinct r1" by blast
  from Cons.prems have "\<forall>q\<in>set ps. page_result e url q = Inr (infos q) \<and> infos q \<noteq> []
             \<and> map subscript_name (infos q) = map (\<lambda>n. Inr (JStr n)) (nm q)" by auto
  from Cons.IH[OF this, of r1 "did (HttpGet url p) (dir s) s"] obtain rs' where rs':
    "pages_loop e url (ps @ q # rest) (map JStr r1) (did (HttpGet url p) (dir s) s)
       = (Inr (map JStr rs'), requested url (ps @ [q]) (did (HttpGet url p) (dir s) s))"
    "set rs' = set r1 \<union> (\<Union>p\<in>set ps. set (nm p))" "distinct r1 \<longrightarrow> distinct rs'" by blast
  show ?case
    using p r1 rs' by (intro exI[of _ rs']) (auto simp: get_page_def requested_Cons)
qed

text \<open>What the loop does to the world whatever the answers: requests only.\<close>

lemma pages_loop_world:
  "\<exists>k\<le>length ps. dir (snd (pages_loop e url ps repos s)) = dir s
     \<and> trace (snd (pages_loop e url ps repos s)) = trace (requested url (take k ps) s)"
proof (induction ps arbitrary: repos s)
  case Nil
  show ?case by simp
next
  case (Cons p ps)
  show ?case
  proof (cases "\<exists>info repos'. page_result e url p = Inr info \<and> info \<noteq> []
                  \<and> repos_update repos info = Inr repos'")
    case True
    then obtain info repos' where a: "page_result e url p = Inr info" "info \<noteq> []"
      "repos_update repos info = Inr repos'" by blast
    from Cons.IH[of repos' "did (HttpGet url p) (dir s) s"] obtain k where
      k: "k \<le> length ps"
      "dir (snd (pages_loop e url ps repos' (did (HttpGet url p) (dir s) s))) = dir s"
      "trace (snd (pages_loop e url ps repos' (did (HttpGet url p) (dir s) s)))
         = trace (requested url (take k ps) (did (HttpGet url p) (dir s) s))" by auto
    show ?thesis
      using a k by (intro exI[of _ "Suc k"]) (simp add: get_page_def)
  next
    case False
    then show ?thesis
      by (intro exI[of _ "Suc 0"]) (auto simp: get_page_def split: sum.splits)
  qed
qed

lemma pages_loop_fst:
  "fst (pages_loop e url ps repos s) = fst (pages_loop e url ps repos t)"
  by (induction ps arbitrary: repos s t) (auto simp: get_page_def split: sum.splits)

lemma keys_delete [simp]: "fst ` set (AList.delete k d) = fst ` set d - {k}"
  using delete_keys[of k d] by (metis list.set_map set_removeAll)

lemma keys_update [simp]: "fst ` set (AList.update k v d) = insert k (fst ` set d)"
  by (simp add: dom_update)

lemma set_entries: "set (entries s) = fst ` set (dir s)"
  by (simp add: entries_def)

lemma rm_path_calls:
  "calls (rm_path e f s) = calls s \<or> calls (rm_path e f s) = calls s @ [Rmtree f]
     \<or> calls (rm_path e f s) = calls s @ [Unlink f]"
  by (auto simp: rm_path_def os_lstat_def os_unlink_def shutil_rmtree_def calls_def did_def log_def
      split: option.splits prod.splits)


lemma rm_path_logged:
  "f \<notin> set (entries (rm_path e f s)) \<or> (ERROR, FailedToRemove) \<in> set (logs (rm_path e f s))"
  by (auto simp: rm_path_def os_lstat_def os_unlink_def shutil_rmtree_def entries_def did_def log_def
      split: option.splits prod.splits)

lemma rm_path_logs_mono: "set (logs s) \<subseteq> set (logs (rm_path e f s))"
  by (auto simp: rm_path_def os_lstat_def os_unlink_def shutil_rmtree_def entries_def did_def log_def
      split: option.splits prod.splits)


lemma cleanup_file_calls:
  "calls (cleanup_file e f s) = calls s \<or> calls (cleanup_file e f s) = calls s @ [Rmtree f]
     \<or> calls (cleanup_file e f s) = calls s @ [Unlink f]"
  using rm_path_calls[of e f "log DEBUG (Removing f) s"]
    rm_path_calls[of e f "log WARNING (RemoveDeletedRepository f) s"]
  by (auto simp: cleanup_file_def)


lemma fold_cleanup_calls:
  "c \<in> set (calls (fold (cleanup_file e) fs s)) \<Longrightarrow>
   c \<in> set (calls s) \<or> (\<exists>f\<in>set fs. c = Rmtree f \<or> c = Unlink f)"
proof (induction fs arbitrary: s)
  case Nil
  then show ?case by simp
next
  case (Cons f fs)
  from Cons.IH[of "cleanup_file e f s"] Cons.prems
  have "c \<in> set (calls (cleanup_file e f s)) \<or> (\<exists>f\<in>set fs. c = Rmtree f \<or> c = Unlink f)"
    by simp
  then show ?case using cleanup_file_calls[of e f s] by auto
qed



lemma cleanup_files_set:
  "set (cleanup_files files repositories) = set files - set repositories - {LOCK_FILE_NAME}"
  by (auto simp: cleanup_files_def)

lemma cleanup_Inr:
  "listdir_err e = None \<Longrightarrow>
   cleanup e R s = (Inr (), fold (cleanup_file e) (cleanup_files (entries s) R) s)"
  by (simp add: cleanup_def os_listdir_def)


lemmas mirror_defs = mirror_repo_def git_fetch_def git_clone_mirror_def git_gc_def os_rename_def Let_def

lemma map_of_update_same [simp]: "map_of (AList.update k v d) k = Some v"
  by (simp add: update_conv')

lemma mirror_repo_present:
  "path_exists n s \<Longrightarrow>
   dir (mirror_repo e n url s) = dir s \<and>
   trace (mirror_repo e n url s) = trace s @ [(GitFetch n, dir s)]"
  by (simp add: mirror_defs)

lemma mirror_repo_present_calls:
  "path_exists n s \<Longrightarrow> calls (mirror_repo e n url s) = calls s @ [GitFetch n]"
  by (simp add: mirror_repo_present calls_def)

lemma mirror_repo_absent_trace:
  assumes "\<not> path_exists n s"
  shows "\<exists>new. trace (mirror_repo e n url s) = trace s @ new
     \<and> (\<forall>(c, d)\<in>set new. n \<in> fst ` set d \<longrightarrow> c = Rename (''.'' @ n) n \<and> published e url n)
     \<and> (\<forall>(c, d)\<in>set new. fst ` set d \<subseteq> insert n (insert (''.'' @ n) (fst ` set (dir s)))
           \<and> fst ` set (dir s) - {''.'' @ n} \<subseteq> fst ` set d)
     \<and> (\<exists>k. map fst new = take (Suc k) [GitClone url (''.'' @ n), GitGc (''.'' @ n), Rename (''.'' @ n) n])"
proof -
  let ?t = "''.'' @ n"
  let ?d1 = "AList.update ?t Directory (dir s)"
  let ?d3 = "AList.update n Directory (AList.delete ?t ?d1)"
  let ?P = "\<lambda>new. (\<forall>(c, d)\<in>set new. n \<in> fst ` set d \<longrightarrow> c = Rename ?t n \<and> published e url n)
     \<and> (\<forall>(c, d)\<in>set new. fst ` set d \<subseteq> insert n (insert ?t (fst ` set (dir s)))
           \<and> fst ` set (dir s) - {?t} \<subseteq> fst ` set d)"
  have nin: "n \<notin> fst ` set (dir s)"
    using assms by (simp add: path_exists_iff set_entries)
  have k1: "n \<notin> fst ` set ?d1" using nin by simp
  have b1: "fst ` set ?d1 \<subseteq> insert n (insert ?t (fst ` set (dir s)))"
    "fst ` set (dir s) - {?t} \<subseteq> fst ` set ?d1" by auto
  have b3: "fst ` set ?d3 \<subseteq> insert n (insert ?t (fst ` set (dir s)))"
    "fst ` set (dir s) - {?t} \<subseteq> fst ` set ?d3" by auto
  have b0: "fst ` set (dir s) \<subseteq> insert n (insert ?t (fst ` set (dir s)))"
    "fst ` set (dir s) - {?t} \<subseteq> fst ` set (dir s)" by auto
  show ?thesis
  proof (cases "clone_res e url ?t")
    case Cloned
    show ?thesis
    proof (cases "gc_ok e ?t")
      case True
      show ?thesis
      proof (cases "rename_err e ?t n")
        case None
        let ?new = "[(GitClone url ?t, ?d1), (GitGc ?t, ?d1), (Rename ?t n, ?d3)]"
        have tr: "trace (mirror_repo e n url s) = trace s @ ?new"
          using assms Cloned True None by (simp add: mirror_defs)
        have pub: "published e url n"
          using Cloned True None by (simp add: published_def)
        have "?P ?new" using k1 b1 b3 pub by simp
        moreover have "map fst ?new = take (Suc 2) [GitClone url ?t, GitGc ?t, Rename ?t n]"
          by simp
        ultimately show ?thesis using tr by blast
      next
        case (Some a)
        let ?new = "[(GitClone url ?t, ?d1), (GitGc ?t, ?d1), (Rename ?t n, ?d1)]"
        have tr: "trace (mirror_repo e n url s) = trace s @ ?new"
          using assms Cloned True Some by (simp add: mirror_defs)
        have "?P ?new" using k1 b1 by simp
        moreover have "map fst ?new = take (Suc 2) [GitClone url ?t, GitGc ?t, Rename ?t n]"
          by simp
        ultimately show ?thesis using tr by blast
      qed
    next
      case False
      let ?new = "[(GitClone url ?t, ?d1), (GitGc ?t, ?d1)]"
      have tr: "trace (mirror_repo e n url s) = trace s @ ?new"
        using assms Cloned False by (simp add: mirror_defs)
      have "?P ?new" using k1 b1 by simp
      moreover have "map fst ?new = take (Suc 1) [GitClone url ?t, GitGc ?t, Rename ?t n]"
        by simp
      ultimately show ?thesis using tr by blast
    qed
  next
    case (CloneFailed left)
    let ?d = "if left \<and> \<not> path_exists ?t s then ?d1 else dir s"
    let ?new = "[(GitClone url ?t, ?d)]"
    have tr: "trace (mirror_repo e n url s) = trace s @ ?new"
      using assms CloneFailed by (simp add: mirror_defs)
    have "n \<notin> fst ` set ?d" using nin k1 by simp
    moreover have "fst ` set ?d \<subseteq> insert n (insert ?t (fst ` set (dir s)))"
      "fst ` set (dir s) - {?t} \<subseteq> fst ` set ?d"
      using b0 b1 by (simp_all del: keys_update)
    ultimately have "?P ?new" by simp
    moreover have "map fst ?new = take (Suc 0) [GitClone url ?t, GitGc ?t, Rename ?t n]"
      by simp
    ultimately show ?thesis using tr by blast
  qed
qed

lemma mirror_repo_absent_entries:
  assumes "\<not> path_exists n s"
  shows "(n \<in> set (entries (mirror_repo e n url s)) \<longleftrightarrow> published e url n)
     \<and> set (entries (mirror_repo e n url s)) \<subseteq> insert n (insert (''.'' @ n) (set (entries s)))
     \<and> (published e url n \<longrightarrow>
          set (entries (mirror_repo e n url s)) = insert n (set (entries s) - {''.'' @ n}))"
proof -
  have nin: "n \<notin> fst ` set (dir s)"
    using assms by (simp add: path_exists_iff set_entries)
  show ?thesis using assms nin
    by (auto simp: mirror_defs published_def set_entries split: clone_result.splits option.splits)
qed

lemma mirror_repo_calls:
  "\<exists>cs. calls (mirror_repo e n url s) = calls s @ cs \<and> set cs \<subseteq> sync_calls url n
     \<and> (GitFetch n \<in> set cs \<or> GitClone url (''.'' @ n) \<in> set cs)
     \<and> (path_exists n s \<longrightarrow> cs = [GitFetch n])"
proof (cases "path_exists n s")
  case True
  then show ?thesis by (simp add: mirror_repo_present_calls sync_calls_def)
next
  case False
  from mirror_repo_absent_trace[OF False, of e url] obtain new where
    "trace (mirror_repo e n url s) = trace s @ new
     \<and> (\<forall>(c, d)\<in>set new. n \<in> fst ` set d \<longrightarrow> c = Rename (''.'' @ n) n \<and> published e url n)
     \<and> (\<forall>(c, d)\<in>set new. fst ` set d \<subseteq> insert n (insert (''.'' @ n) (fst ` set (dir s)))
           \<and> fst ` set (dir s) - {''.'' @ n} \<subseteq> fst ` set d)
     \<and> (\<exists>k. map fst new = take (Suc k) [GitClone url (''.'' @ n), GitGc (''.'' @ n), Rename (''.'' @ n) n])"
    by (rule exE)
  then obtain k where
    new: "trace (mirror_repo e n url s) = trace s @ new"
    "map fst new = take (Suc k) [GitClone url (''.'' @ n), GitGc (''.'' @ n), Rename (''.'' @ n) n]"
    by (elim conjE exE)
  have "set (map fst new) \<subseteq> sync_calls url n"
    unfolding new(2) using set_take_subset[of "Suc k"] by (fastforce simp: sync_calls_def)
  moreover have "GitClone url (''.'' @ n) \<in> set (map fst new)"
    unfolding new(2) by simp
  ultimately show ?thesis using False new(1)
    by (intro exI[of _ "map fst new"]) (simp add: calls_def)
qed

lemma mirror_repo_keeps:
  "k \<in> set (entries s) \<Longrightarrow> k \<noteq> ''.'' @ n \<Longrightarrow> k \<in> set (entries (mirror_repo e n url s))"
  by (auto simp: mirror_defs set_entries path_exists_def split: clone_result.splits option.splits)

lemma mirror_repo_logs_mono: "set (logs s) \<subseteq> set (logs (mirror_repo e n url s))"
  by (auto simp: mirror_defs split: clone_result.splits option.splits)

lemma mirror_repo_logged:
  "(path_exists n s \<and> fetch_ok e n) \<or> (\<not> path_exists n s \<and> published e url n)
     \<or> (ERROR, FailedToSync n) \<in> set (logs (mirror_repo e n url s))
     \<or> (ERROR, FailedToMirror n) \<in> set (logs (mirror_repo e n url s))"
  by (auto simp: mirror_defs published_def path_exists_def split: clone_result.splits option.splits)

lemma mirror_repo_outcome:
  "(GitFetch n \<in> set (calls (mirror_repo e n url s))
      \<and> (fetch_ok e n \<or> (ERROR, FailedToSync n) \<in> set (logs (mirror_repo e n url s))))
   \<or> (GitClone url (''.'' @ n) \<in> set (calls (mirror_repo e n url s))
      \<and> (published e url n \<or> (ERROR, FailedToMirror n) \<in> set (logs (mirror_repo e n url s))))"
  by (auto simp: mirror_defs published_def path_exists_def calls_def
      split: clone_result.splits option.splits)

lemma mirror_all_Cons [simp]:
  "mirror_all e u (n # R) s = mirror_all e u R (mirror_repo e n (clone_url u n) s)"
  "mirror_all e u [] s = s"
  by (simp_all add: mirror_all_def)

lemma mirror_all_mono:
  "set (calls s) \<subseteq> set (calls (mirror_all e u R s)) \<and> set (logs s) \<subseteq> set (logs (mirror_all e u R s))"
proof (induction R arbitrary: s)
  case Nil
  show ?case by simp
next
  case (Cons n R)
  obtain cs where "calls (mirror_repo e n (clone_url u n) s) = calls s @ cs"
    using mirror_repo_calls by blast
  then show ?case
    using Cons.IH[of "mirror_repo e n (clone_url u n) s"]
      mirror_repo_logs_mono[where s=s and e=e and n=n and url="clone_url u n"]
    by auto
qed

lemma mirror_all_calls:
  "c \<in> set (calls (mirror_all e u R s)) \<Longrightarrow>
   c \<in> set (calls s) \<or> (\<exists>m\<in>set R. c \<in> sync_calls (clone_url u m) m)"
proof (induction R arbitrary: s)
  case Nil
  then show ?case by simp
next
  case (Cons n R)
  obtain cs where cs: "calls (mirror_repo e n (clone_url u n) s) = calls s @ cs"
    "set cs \<subseteq> sync_calls (clone_url u n) n"
    using mirror_repo_calls by blast
  from Cons.IH[of "mirror_repo e n (clone_url u n) s"] Cons.prems
  have "c \<in> set (calls (mirror_repo e n (clone_url u n) s)) \<or> (\<exists>m\<in>set R. c \<in> sync_calls (clone_url u m) m)"
    by simp
  then show ?case using cs by auto
qed

lemma mirror_all_outcome:
  "n \<in> set R \<Longrightarrow>
   (GitFetch n \<in> set (calls (mirror_all e u R s))
      \<and> (fetch_ok e n \<or> (ERROR, FailedToSync n) \<in> set (logs (mirror_all e u R s))))
   \<or> (GitClone (clone_url u n) (''.'' @ n) \<in> set (calls (mirror_all e u R s))
      \<and> (published e (clone_url u n) n \<or> (ERROR, FailedToMirror n) \<in> set (logs (mirror_all e u R s))))"
proof (induction R arbitrary: s)
  case Nil
  then show ?case by simp
next
  case (Cons m R)
  show ?case
  proof (cases "n \<in> set R")
    case True
    from Cons.IH[OF True] show ?thesis by simp
  next
    case False
    then have [simp]: "m = n" using Cons.prems by simp
    show ?thesis
      using mirror_repo_outcome[where n=n and e=e and s=s and url="clone_url u n"]
        mirror_all_mono[where s="mirror_repo e n (clone_url u n) s" and e=e and u=u and R=R]
      by simp blast
  qed
qed


lemma dot_name_neq: "\<not> startswith_dot k \<Longrightarrow> k \<noteq> ''.'' @ n"
  by (auto simp: startswith_dot_def)

lemma mirror_all_kept:
  "k \<in> set (entries s) \<Longrightarrow> \<not> startswith_dot k \<Longrightarrow> k \<in> set (entries (mirror_all e u R s))"
proof (induction R arbitrary: s)
  case Nil
  then show ?case by simp
next
  case (Cons m R)
  have "k \<in> set (entries (mirror_repo e m (clone_url u m) s))"
    by (rule mirror_repo_keeps[OF Cons.prems(1) dot_name_neq[OF Cons.prems(2)]])
  from Cons.IH[OF this Cons.prems(2)] show ?case by simp
qed


lemma mirror_all_success:
  assumes "\<forall>n\<in>set R. published e (clone_url u n) n \<and> \<not> startswith_dot n"
  shows "set R \<subseteq> set (entries (mirror_all e u R s)) \<and>
         set (entries (mirror_all e u R s)) \<subseteq> set (entries s) \<union> set R"
  using assms
proof (induction R arbitrary: s)
  case Nil
  show ?case by simp
next
  case (Cons n R)
  let ?s = "mirror_repo e n (clone_url u n) s"
  have pub: "published e (clone_url u n) n" "\<not> startswith_dot n" using Cons.prems by auto
  have n_in: "n \<in> set (entries ?s)" and sub: "set (entries ?s) \<subseteq> set (entries s) \<union> {n}"
  proof -
    show "n \<in> set (entries ?s)"
    proof (cases "path_exists n s")
      case True
      then show ?thesis using mirror_repo_present[OF True, of e "clone_url u n"]
        by (simp add: path_exists_iff entries_def)
    next
      case False
      then show ?thesis using mirror_repo_absent_entries[OF False, of e "clone_url u n"] pub by simp
    qed
    show "set (entries ?s) \<subseteq> set (entries s) \<union> {n}"
    proof (cases "path_exists n s")
      case True
      then show ?thesis using mirror_repo_present[OF True, of e "clone_url u n"]
        by (auto simp: path_exists_iff entries_def)
    next
      case False
      then show ?thesis using mirror_repo_absent_entries[OF False, of e "clone_url u n"] pub by auto
    qed
  qed
  have "\<forall>n\<in>set R. published e (clone_url u n) n \<and> \<not> startswith_dot n" using Cons.prems by auto
  from Cons.IH[OF this, of ?s] have ih: "set R \<subseteq> set (entries (mirror_all e u R ?s))"
    "set (entries (mirror_all e u R ?s)) \<subseteq> set (entries ?s) \<union> set R" by auto
  have "n \<in> set (entries (mirror_all e u R ?s))"
    using mirror_all_kept[OF n_in pub(2)] .
  with ih sub show ?case by auto
qed

lemma gur_world:
  "\<exists>ps. dir (snd (get_user_repositories e u s)) = dir s
     \<and> trace (snd (get_user_repositories e u s)) = trace (requested (repos_url u) ps s)"
  using pages_loop_world[of "[1..<max_pages + 1]" e "repos_url u" "[]" s]
  unfolding get_user_repositories_def by blast

lemma gur_fst: "fst (get_user_repositories e u s) = fst (get_user_repositories e u t)"
  unfolding get_user_repositories_def by (rule pages_loop_fst)

lemma backup_Inl:
  "fst (get_user_repositories e u s) = Inl err \<Longrightarrow>
   backup e u s = (Inl err, snd (get_user_repositories e u s))"
  by (cases "get_user_repositories e u s") (simp add: backup_def)

lemma drop_invalid_logs_mono: "set (logs t) \<subseteq> set (logs (snd (drop_invalid xs ys t)))"
proof (induction xs arbitrary: ys t)
  case Nil
  show ?case by simp
next
  case (Cons x xs)
  show ?case
    using Cons.IH[where ys="remove1 x ys" and t="log ERROR (InvalidRepositoryName x) t"]
      Cons.IH[where ys=ys and t=t]
    by auto
qed

lemma backup_run:
  assumes "fst (get_user_repositories e u s) = Inr names" "sorted_by_lower names = Inr ns"
  shows "\<exists>s2 ps. dir s2 = dir s \<and> trace s2 = trace (requested (repos_url u) ps s)
      \<and> set (logs (snd (get_user_repositories e u s))) \<subseteq> set (logs s2)
      \<and> backup e u s = (case cleanup e (filter valid_name ns) s2 of
            (Inl err, s3) \<Rightarrow> (Inl err, s3)
          | (Inr v, s3) \<Rightarrow> (Inr (), mirror_all e u (filter valid_name ns) s3))"
proof -
  obtain s1 where s1: "get_user_repositories e u s = (Inr names, s1)"
    using assms(1) by (cases "get_user_repositories e u s") simp
  obtain ps where ps: "dir s1 = dir s" "trace s1 = trace (requested (repos_url u) ps s)"
    using gur_world[of e u s] s1 by auto
  obtain R s2 where v: "validate u ns s1 = (R, s2)"
    by (cases "validate u ns s1")
  have R: "R = filter valid_name ns"
    using validate_fst[of u ns s1] v by simp
  have w: "dir s2 = dir s1" "trace s2 = trace s1"
    using validate_world[of u ns s1] v by simp_all
  have mono: "set (logs s1) \<subseteq> set (logs s2)"
    using drop_invalid_logs_mono[where t="log INFO (UserHasRepositories u (length ns) ns) s1"
        and xs=ns and ys=ns] v
    by (auto simp: validate_def split: if_splits)
  have "backup e u s = (case cleanup e R s2 of
            (Inl err, s3) \<Rightarrow> (Inl err, s3)
          | (Inr v, s3) \<Rightarrow> (Inr (), mirror_all e u R s3))"
    by (simp add: backup_def s1 assms(2) v)
  then show ?thesis
    unfolding R using ps w mono s1 by (intro exI[of _ s2] exI[of _ ps]) simp
qed

lemma sorted_by_lower_strs [simp]: "sorted_by_lower (map JStr rs) = Inr (sort_key lower rs)"
proof -
  have "those (map as_str (map JStr rs)) = Some rs"
    by (induction rs) auto
  then show ?thesis by (simp add: sorted_by_lower_def)
qed

lemma sorted_by_lower_set: "sorted_by_lower names = Inr ns \<Longrightarrow> map JStr ns = names \<or> set (map JStr ns) = set names"
proof -
  assume a: "sorted_by_lower names = Inr ns"
  have "\<And>rs. those (map as_str names) = Some rs \<Longrightarrow> names = map JStr rs"
  proof (induction names)
    case Nil
    then show ?case by simp
  next
    case (Cons j js)
    then show ?case by (cases j) (auto split: option.splits)
  qed
  with a show ?thesis
    by (auto simp: sorted_by_lower_def split: option.splits)
qed

subsection \<open>The name validator\<close>

text \<open>
  The pattern is anchored at the start only, so the validator looks at nothing but the
  first character: a name that matches as a whole is accepted, and a name that starts
  with a dot is rejected.
\<close>

lemma valid_name_first: "valid_name n \<longleftrightarrow> n \<noteq> [] \<and> name_first (hd n)"
  by (cases n) (simp_all add: valid_name_def)

text \<open>
  Claim C1 (every name that matches the pattern to its end is accepted; every name that
  starts with a dot or contains the path separator is rejected). The code does not reject
  a separator after the first character: \<^verbatim>\<open>a/b\<close> does not match the pattern as a whole,
  yet the search matches its prefix \<^verbatim>\<open>a\<close>, the validator accepts the name and the loop of
  \<^verbatim>\<open>_backup\<close> keeps it among the repositories.
\<close>

theorem C1_separator_accepted:
  "\<not> name_full_match ''a/b'' \<and> name_re_search ''a/b'' = Some ''a'' \<and> valid_name ''a/b''
     \<and> fst (validate ''u'' [''a/b''] (start [])) = [''a/b'']"
  by (simp add: valid_name_def validate_def name_first_def name_rest_def alnum_def)

subsection \<open>The remote lister\<close>

text \<open>
  Claim C5 (the lister fails with "server returned an invalid response" exactly when the
  body does not parse or is not a list; every 200 response whose body is a JSON list is
  accepted). The code raises \<^verbatim>\<open>ValueError\<close> when the header \<^verbatim>\<open>Content-Type\<close> equals
  \<^verbatim>\<open>application/json\<close>: a 200 response with that header and the body
  \<^verbatim>\<open>[{"id": 1, "name": "alpha"}]\<close> is refused as an invalid response, and the run ends.
\<close>

theorem C5_json_content_type_refused:
  "page_result plain_json_server (repos_url ''u'') 1
     = Inl (Error (FailedToGetList (repos_url ''u'') InvalidResponse))
   \<and> fst (get_user_repositories plain_json_server ''u'' (start []))
     = Inl (Error (FailedToGetList (repos_url ''u'') InvalidResponse))
   \<and> fst (backup plain_json_server ''u'' (start []))
     = Inl (Error (FailedToGetList (repos_url ''u'') InvalidResponse))"
  by (simp add: page_result_def plain_json_server_def quiet_def get_user_repositories_def
      max_pages_def upt_conv_Cons get_page_def backup_def)

subsection \<open>The mirror operator\<close>



subsection \<open>The reconciler\<close>

lemma cleanup_file_logs:
  "set (logs s) \<subseteq> set (logs (cleanup_file e f s)) \<and>
   ((DEBUG, Removing f) \<in> set (logs (cleanup_file e f s))
      \<or> (WARNING, RemoveDeletedRepository f) \<in> set (logs (cleanup_file e f s)))"
  using rm_path_logs_mono[where s="log DEBUG (Removing f) s" and e=e and f=f]
    rm_path_logs_mono[where s="log WARNING (RemoveDeletedRepository f) s" and e=e and f=f]
  by (auto simp: cleanup_file_def)

lemma fold_cleanup_logs_mono: "set (logs s) \<subseteq> set (logs (fold (cleanup_file e) fs s))"
proof (induction fs arbitrary: s)
  case Nil
  show ?case by simp
next
  case (Cons f fs)
  show ?case using Cons.IH[of "cleanup_file e f s"] cleanup_file_logs[of s e f] by auto
qed

lemma fold_cleanup_attempted:
  "f \<in> set fs \<Longrightarrow>
   (DEBUG, Removing f) \<in> set (logs (fold (cleanup_file e) fs s))
     \<or> (WARNING, RemoveDeletedRepository f) \<in> set (logs (fold (cleanup_file e) fs s))"
proof (induction fs arbitrary: s)
  case Nil
  then show ?case by simp
next
  case (Cons g fs)
  show ?case
  proof (cases "f = g")
    case True
    then show ?thesis
      using cleanup_file_logs[of s e f] fold_cleanup_logs_mono[of "cleanup_file e f s" e fs]
      by auto
  next
    case False
    then show ?thesis using Cons by simp
  qed
qed




subsection \<open>Pagination\<close>

lemma upt_split_at: "k < m \<Longrightarrow> [1..<Suc m] = [1..<Suc k] @ Suc k # [Suc (Suc k)..<Suc m]"
proof -
  assume km: "k < m"
  have "[1..<Suc k + (m - k)] = [1..<Suc k] @ [Suc k..<Suc k + (m - k)]"
    by (rule upt_add_eq_append) simp
  moreover have "Suc k + (m - k) = Suc m" using km by simp
  ultimately have "[1..<Suc m] = [1..<Suc k] @ [Suc k..<Suc m]" by simp
  moreover have "[Suc k..<Suc m] = Suc k # [Suc (Suc k)..<Suc m]"
    using km by (simp add: upt_conv_Cons)
  ultimately show ?thesis by simp
qed

text \<open>
  Claim C6 (pagination and deduplication). Let the pages 1 to \<open>k\<close> be answered with
  non-empty lists of repositories with string names, \<open>k\<close> at most the ceiling of 100
  pages, and page \<open>k + 1\<close> with the empty list when \<open>k\<close> is below the ceiling. Then the
  lister requests the pages 1, 2, ... in this order, one request each, up to the first
  empty page or the ceiling and no further, changes nothing in the directory, and
  returns the names of the pages 1 to \<open>k\<close>, each once. It logs one error when the
  ceiling is reached (the call of \<^verbatim>\<open>log.error\<close> in the \<^verbatim>\<open>else\<close> branch of the loop) and
  nothing otherwise, and returns the collected names in both cases.
\<close>

theorem C6_pagination:
  assumes "k \<le> max_pages"
    and "\<forall>p\<in>{1..k}. page_result e (repos_url u) p = Inr (infos p) \<and> infos p \<noteq> []
           \<and> map subscript_name (infos p) = map (\<lambda>n. Inr (JStr n)) (nm p)"
    and "k < max_pages \<longrightarrow> page_result e (repos_url u) (Suc k) = Inr []"
  shows "\<exists>rs s'. get_user_repositories e u s = (Inr (map JStr rs), s')
     \<and> distinct rs \<and> set rs = (\<Union>p\<in>{1..k}. set (nm p))
     \<and> dir s' = dir s
     \<and> calls s' = calls s @ map (HttpGet (repos_url u)) [1..<Suc (min (Suc k) max_pages)]
     \<and> logs s' = logs s
          @ (if k = max_pages then [(ERROR, TooManyRepositories (repos_url u))] else [])"
proof (cases "k = max_pages")
  case True
  let ?url = "repos_url u"
  let ?s' = "log ERROR (TooManyRepositories ?url) (requested ?url [1..<max_pages + 1] s)"
  have set_ps: "set [1..<max_pages + 1] = {1..k}" using True by auto
  from assms(2) have "\<forall>p\<in>set [1..<max_pages + 1]. page_result e ?url p = Inr (infos p)
      \<and> infos p \<noteq> [] \<and> map subscript_name (infos p) = map (\<lambda>n. Inr (JStr n)) (nm p)"
    unfolding set_ps .
  from pages_loop_full[OF this, of "[]" s] obtain rs where
    "pages_loop e ?url [1..<max_pages + 1] (map JStr []) s = (Inr (map JStr rs), ?s')
     \<and> set rs = set [] \<union> (\<Union>p\<in>set [1..<max_pages + 1]. set (nm p))
     \<and> (distinct ([] :: string list) \<longrightarrow> distinct rs)"
    by (rule exE)
  then have rs: "pages_loop e ?url [1..<max_pages + 1] [] s = (Inr (map JStr rs), ?s')"
    "set rs = (\<Union>p\<in>{1..k}. set (nm p))" "distinct rs"
    unfolding set_ps by simp_all
  have g: "get_user_repositories e u s = (Inr (map JStr rs), ?s')"
    unfolding get_user_repositories_def by (rule rs(1))
  have m: "[1..<Suc (min (Suc k) max_pages)] = [1..<max_pages + 1]" using True by simp
  have w: "dir ?s' = dir s"
    "calls ?s' = calls s @ map (HttpGet ?url) [1..<Suc (min (Suc k) max_pages)]"
    "logs ?s' = logs s @ (if k = max_pages then [(ERROR, TooManyRepositories ?url)] else [])"
    unfolding m using True by simp_all
  show ?thesis
    by (rule exI[of _ rs], rule exI[of _ ?s']) (intro conjI g rs(2,3) w)
next
  case False
  let ?url = "repos_url u"
  let ?s' = "requested ?url ([1..<Suc k] @ [Suc k]) s"
  from False have lt: "k < max_pages" using assms(1) by simp
  have split: "[1..<max_pages + 1] = [1..<Suc k] @ Suc k # [Suc (Suc k)..<Suc max_pages]"
    using upt_split_at[OF lt] by simp
  have set_ps: "set [1..<Suc k] = {1..k}" by auto
  from assms(2) have a: "\<forall>p\<in>set [1..<Suc k]. page_result e ?url p = Inr (infos p)
      \<and> infos p \<noteq> [] \<and> map subscript_name (infos p) = map (\<lambda>n. Inr (JStr n)) (nm p)"
    unfolding set_ps .
  have b: "page_result e ?url (Suc k) = Inr []" using assms(3) lt by simp
  from pages_loop_break[OF a b, of "[Suc (Suc k)..<Suc max_pages]" "[]" s] obtain rs where
    "pages_loop e ?url ([1..<Suc k] @ Suc k # [Suc (Suc k)..<Suc max_pages]) (map JStr []) s
       = (Inr (map JStr rs), ?s')
     \<and> set rs = set [] \<union> (\<Union>p\<in>set [1..<Suc k]. set (nm p))
     \<and> (distinct ([] :: string list) \<longrightarrow> distinct rs)"
    by (rule exE)
  then have rs:
    "pages_loop e ?url ([1..<Suc k] @ Suc k # [Suc (Suc k)..<Suc max_pages]) [] s
       = (Inr (map JStr rs), ?s')"
    "set rs = (\<Union>p\<in>{1..k}. set (nm p))" "distinct rs"
    unfolding set_ps by (simp_all del: upt_Suc)
  have g: "get_user_repositories e u s = (Inr (map JStr rs), ?s')"
    unfolding get_user_repositories_def split by (rule rs(1))
  have "[1..<Suc (Suc k)] = [1..<Suc k] @ [Suc k]" by simp
  moreover have "min (Suc k) max_pages = Suc k" using lt by simp
  ultimately have m: "[1..<Suc (min (Suc k) max_pages)] = [1..<Suc k] @ [Suc k]" by simp
  have w: "dir ?s' = dir s"
    "calls ?s' = calls s @ map (HttpGet ?url) [1..<Suc (min (Suc k) max_pages)]"
    "logs ?s' = logs s @ (if k = max_pages then [(ERROR, TooManyRepositories ?url)] else [])"
    unfolding m using False by (simp_all del: upt_Suc)
  show ?thesis
    by (rule exI[of _ rs], rule exI[of _ ?s']) (intro conjI g rs(2,3) w)
qed

text \<open>Two pages that share the name \<^verbatim>\<open>beta\<close>, then an empty page.\<close>

theorem C6_witness:
  "(2::nat) \<le> max_pages
   \<and> page_result two_page_server (repos_url ''u'') 3 = Inr []
   \<and> (\<exists>rs s'. get_user_repositories two_page_server ''u'' (start []) = (Inr (map JStr rs), s')
         \<and> distinct rs \<and> set rs = {''alpha'', ''beta'', ''gamma''}
         \<and> calls s' = map (HttpGet (repos_url ''u'')) [1, 2, 3] \<and> logs s' = [])"
proof -
  have h1: "(2::nat) \<le> max_pages" by (simp add: max_pages_def)
  have pr: "\<And>p. page_result two_page_server (repos_url ''u'') p = Inr (map repo (two_pages p))"
    by (simp add: page_result_def two_page_server_def serving_def quiet_def ok_response_def)
  have sn: "\<And>p. map subscript_name (map repo (two_pages p)) = map (\<lambda>n. Inr (JStr n)) (two_pages p)"
    by (simp add: repo_def)
  have ne: "\<And>p. p \<in> {1..2} \<Longrightarrow> map repo (two_pages p) \<noteq> []"
    by (auto simp: two_pages_def)
  have h2: "\<forall>p\<in>{1..2}. page_result two_page_server (repos_url ''u'') p = Inr (map repo (two_pages p))
      \<and> map repo (two_pages p) \<noteq> []
      \<and> map subscript_name (map repo (two_pages p)) = map (\<lambda>n. Inr (JStr n)) (two_pages p)"
    using pr sn ne by blast
  have h3': "page_result two_page_server (repos_url ''u'') 3 = Inr []"
    by (simp add: pr two_pages_def)
  then have h3: "2 < max_pages \<longrightarrow> page_result two_page_server (repos_url ''u'') (Suc 2) = Inr []"
    by (simp add: eval_nat_numeral)
  have u: "(\<Union>p\<in>{1..2::nat}. set (two_pages p)) = {''alpha'', ''beta'', ''gamma''}"
  proof -
    have "{1..2::nat} = {1, 2}" by auto
    then show ?thesis by (auto simp: two_pages_def)
  qed
  have l: "[1..<Suc (min (Suc 2) max_pages)] = [1, 2, 3]"
    by (simp add: max_pages_def upt_conv_Cons)
  from C6_pagination[OF h1 h2 h3, of "start []"] obtain rs s' where
    "get_user_repositories two_page_server ''u'' (start []) = (Inr (map JStr rs), s')
     \<and> distinct rs \<and> set rs = (\<Union>p\<in>{1..2}. set (two_pages p))
     \<and> dir s' = dir (start [])
     \<and> calls s' = calls (start []) @ map (HttpGet (repos_url ''u'')) [1..<Suc (min (Suc 2) max_pages)]
     \<and> logs s' = logs (start [])
          @ (if 2 = max_pages then [(ERROR, TooManyRepositories (repos_url ''u''))] else [])"
    by (elim exE)
  then have "get_user_repositories two_page_server ''u'' (start []) = (Inr (map JStr rs), s')
         \<and> distinct rs \<and> set rs = {''alpha'', ''beta'', ''gamma''}
         \<and> calls s' = map (HttpGet (repos_url ''u'')) [1, 2, 3] \<and> logs s' = []"
    unfolding u l by (simp add: start_def calls_def max_pages_def)
  then have "\<exists>rs s'. get_user_repositories two_page_server ''u'' (start []) = (Inr (map JStr rs), s')
         \<and> distinct rs \<and> set rs = {''alpha'', ''beta'', ''gamma''}
         \<and> calls s' = map (HttpGet (repos_url ''u'')) [1, 2, 3] \<and> logs s' = []"
    by (intro exI[of _ rs] exI[of _ s'])
  with h1 h3' show ?thesis by (intro conjI)
qed

subsection \<open>The run as a whole\<close>

lemma pages_loop_Inl_logs:
  "fst (pages_loop e url ps repos s) = Inl err \<Longrightarrow> logs (snd (pages_loop e url ps repos s)) = logs s"
proof (induction ps arbitrary: repos s)
  case Nil
  then show ?case by simp
next
  case (Cons p ps)
  show ?case
  proof (cases "page_result e url p")
    case (Inl x)
    then show ?thesis by (simp add: get_page_def)
  next
    case (Inr info)
    show ?thesis
    proof (cases "info = []")
      case True
      then show ?thesis using Inr Cons.prems by (simp add: get_page_def)
    next
      case False
      show ?thesis
      proof (cases "repos_update repos info")
        case (Inl x)
        then show ?thesis using Inr False by (simp add: get_page_def)
      next
        case r: (Inr repos')
        from Cons.prems Inr False r
        have "fst (pages_loop e url ps repos' (did (HttpGet url p) (dir s) s)) = Inl err"
          by (simp add: get_page_def)
        from Cons.IH[OF this] show ?thesis using Inr False r by (simp add: get_page_def)
      qed
    qed
  qed
qed

lemma release_lock_world:
  "calls (release_lock e s) = calls s @ [Unlink LOCK_FILE_NAME]
   \<and> set (logs s) \<subseteq> set (logs (release_lock e s))"
  by (auto simp: release_lock_def os_unlink_def split: option.splits)

lemma locked_world_simps [simp]:
  "trace (locked_world s) = trace s" "logs (locked_world s) = logs s"
  "calls (locked_world s) = calls s"
  "set (entries (locked_world s)) = insert LOCK_FILE_NAME (set (entries s))"
  by (auto simp: locked_world_def calls_def entries_def path_exists_def map_of_eq_None_iff)

lemma main_acquired:
  assumes "check_backup_dir e = Inr ()" "pidfile_res e = Acquired"
  shows "main e a s =
     (case fst (backup e (user a) (locked_world s)) of
        Inr v \<Rightarrow> ExitOk
      | Inl (Error m) \<Rightarrow> ExitError m
      | Inl other \<Rightarrow> Traceback,
      release_lock e (snd (backup e (user a) (locked_world s))))"
  using assms
  by (cases "backup e (user a) (locked_world s)")
     (auto simp: main_def Let_def split: sum.splits failure.splits)

text \<open>
  Claim C9 (a failing listing aborts before any local mutation). When
  \<^verbatim>\<open>_get_user_repositories\<close> raises (transport failure, bad status, malformed payload, or
  any other exception), \<^verbatim>\<open>_backup\<close> raises the same exception: the directory and the log
  are as before and every call made is an HTTP request. In \<^verbatim>\<open>main\<close>, once the gate is
  passed and the lock acquired, the process then ends with status 1, and besides the
  requests its only call is the unlinking of the lock file.
\<close>

theorem C9_listing_failure:
  assumes "fst (get_user_repositories e (user a) s) = Inl err"
  shows "fst (backup e (user a) s) = Inl err
     \<and> dir (snd (backup e (user a) s)) = dir s
     \<and> logs (snd (backup e (user a) s)) = logs s
     \<and> (\<exists>ps. trace (snd (backup e (user a) s))
               = trace s @ map (\<lambda>p. (HttpGet (repos_url (user a)) p, dir s)) ps)
     \<and> (check_backup_dir e = Inr () \<and> pidfile_res e = Acquired \<longrightarrow>
          fst (main e a s) \<noteq> ExitOk \<and> exit_code (fst (main e a s)) = 1
          \<and> (\<forall>c\<in>set (calls (snd (main e a s))). c \<in> set (calls s)
                \<or> (\<exists>p. c = HttpGet (repos_url (user a)) p) \<or> c = Unlink LOCK_FILE_NAME))"
proof -
  let ?u = "user a"
  have b: "\<And>t. backup e ?u t = (Inl err, snd (get_user_repositories e ?u t))"
    using backup_Inl[of e ?u _ err] gur_fst[of e ?u _ s] assms by simp
  have w: "\<And>t. \<exists>ps. dir (snd (get_user_repositories e ?u t)) = dir t
     \<and> trace (snd (get_user_repositories e ?u t)) = trace (requested (repos_url ?u) ps t)"
    by (rule gur_world)
  have l: "logs (snd (get_user_repositories e ?u s)) = logs s"
    using pages_loop_Inl_logs[of e "repos_url ?u" "[1..<max_pages + 1]" "[]" s err] assms
    by (simp add: get_user_repositories_def)
  have p1: "fst (backup e ?u s) = Inl err" by (simp add: b)
  have p2: "dir (snd (backup e ?u s)) = dir s" using w[of s] by (auto simp: b)
  have p3: "logs (snd (backup e ?u s)) = logs s" using l by (simp add: b)
  have p4: "\<exists>ps. trace (snd (backup e ?u s)) = trace s @ map (\<lambda>p. (HttpGet (repos_url ?u) p, dir s)) ps"
    using w[of s] by (auto simp: b)
  have p5: "check_backup_dir e = Inr () \<and> pidfile_res e = Acquired \<longrightarrow>
          fst (main e a s) \<noteq> ExitOk \<and> exit_code (fst (main e a s)) = 1
          \<and> (\<forall>c\<in>set (calls (snd (main e a s))). c \<in> set (calls s)
                \<or> (\<exists>p. c = HttpGet (repos_url ?u) p) \<or> c = Unlink LOCK_FILE_NAME)"
  proof
    assume g: "check_backup_dir e = Inr () \<and> pidfile_res e = Acquired"
    let ?s1 = "snd (get_user_repositories e ?u (locked_world s))"
    have m: "main e a s = (case err of Error m \<Rightarrow> ExitError m | _ \<Rightarrow> Traceback, release_lock e ?s1)"
      using main_acquired[of e a s] g by (simp add: b)
    obtain ps where ps: "trace ?s1 = trace (requested (repos_url ?u) ps (locked_world s))"
      using w[of "locked_world s"] by blast
    then have c1: "calls ?s1 = calls s @ map (HttpGet (repos_url ?u)) ps"
      by (simp add: calls_def comp_def)
    have "calls (snd (main e a s)) = calls s @ map (HttpGet (repos_url ?u)) ps @ [Unlink LOCK_FILE_NAME]"
      using release_lock_world[of e ?s1] c1 by (simp add: m)
    then have "\<forall>c\<in>set (calls (snd (main e a s))). c \<in> set (calls s)
                \<or> (\<exists>p. c = HttpGet (repos_url ?u) p) \<or> c = Unlink LOCK_FILE_NAME"
      by auto
    moreover have "fst (main e a s) \<noteq> ExitOk \<and> exit_code (fst (main e a s)) = 1"
      by (cases err) (simp_all add: m)
    ultimately show "fst (main e a s) \<noteq> ExitOk \<and> exit_code (fst (main e a s)) = 1
          \<and> (\<forall>c\<in>set (calls (snd (main e a s))). c \<in> set (calls s)
                \<or> (\<exists>p. c = HttpGet (repos_url ?u) p) \<or> c = Unlink LOCK_FILE_NAME)"
      by simp
  qed
  show ?thesis by (intro conjI p1 p2 p3 p4 p5)
qed

text \<open>Without network the first request fails and the scenario's directory is untouched.\<close>

theorem C9_witness:
  "fst (get_user_repositories quiet (user interactive) scenario)
     = Inl (Error (FailedToGetList (repos_url ''u'') RequestException))
   \<and> fst (backup quiet (user interactive) scenario)
     = Inl (Error (FailedToGetList (repos_url ''u'') RequestException))
   \<and> dir (snd (backup quiet (user interactive) scenario)) = dir scenario
   \<and> logs (snd (backup quiet (user interactive) scenario)) = logs scenario"
proof -
  have h: "fst (get_user_repositories quiet (user interactive) scenario)
     = Inl (Error (FailedToGetList (repos_url ''u'') RequestException))"
    by (simp add: get_user_repositories_def max_pages_def upt_conv_Cons get_page_def
        page_result_def quiet_def interactive_def)
  show ?thesis
    using h C9_listing_failure[OF h] by (elim conjE) (intro conjI)
qed

subsection \<open>The safety gate\<close>

lemma backup_listed:
  assumes "fst (get_user_repositories e u s) = Inr names" "sorted_by_lower names = Inr ns"
    and "listdir_err e = None"
  shows "\<exists>s2 ps. dir s2 = dir s \<and> trace s2 = trace (requested (repos_url u) ps s)
      \<and> backup e u s = (Inr (), mirror_all e u (filter valid_name ns)
            (fold (cleanup_file e) (cleanup_files (entries s) (filter valid_name ns)) s2))"
proof -
  from backup_run[OF assms(1,2)] obtain s2 ps where
    "dir s2 = dir s \<and> trace s2 = trace (requested (repos_url u) ps s)
      \<and> set (logs (snd (get_user_repositories e u s))) \<subseteq> set (logs s2)
      \<and> backup e u s = (case cleanup e (filter valid_name ns) s2 of
            (Inl err, s3) \<Rightarrow> (Inl err, s3)
          | (Inr v, s3) \<Rightarrow> (Inr (), mirror_all e u (filter valid_name ns) s3))"
    by (elim exE)
  then have a: "dir s2 = dir s" "trace s2 = trace (requested (repos_url u) ps s)"
    "backup e u s = (case cleanup e (filter valid_name ns) s2 of
            (Inl err, s3) \<Rightarrow> (Inl err, s3)
          | (Inr v, s3) \<Rightarrow> (Inr (), mirror_all e u (filter valid_name ns) s3))"
    by simp_all
  have "entries s2 = entries s" using a(1) by (simp add: entries_def)
  then have "backup e u s = (Inr (), mirror_all e u (filter valid_name ns)
            (fold (cleanup_file e) (cleanup_files (entries s) (filter valid_name ns)) s2))"
    using a(3) cleanup_Inr[OF assms(3), of "filter valid_name ns" s2] by simp
  with a(1,2) show ?thesis by (intro exI[of _ s2] exI[of _ ps] conjI)
qed




subsection \<open>Failure isolation\<close>

text \<open>
  Claim C8 (failure isolation). Let the gate be passed, the lock acquired, the remote
  listing done and the directory listed. Then, whatever \<^verbatim>\<open>git\<close>, \<^verbatim>\<open>rename\<close>, \<^verbatim>\<open>lstat\<close>,
  \<^verbatim>\<open>rmtree\<close> and \<^verbatim>\<open>unlink\<close> do, the process ends with status 0; every validated repository
  is attempted (a fetch or a clone is called for it) and its failure is in the log at
  error level; every member of the deletion set is handed to \<^verbatim>\<open>_rm_path\<close> (it is
  announced in the log); and \<^verbatim>\<open>_rm_path\<close> never raises: it removes the entry or logs an
  error. So a run that ends with another status failed at the gate, at the lock or at
  one of the two listings.
\<close>

theorem C8_failure_isolation:
  fixes e :: env and a :: args and s :: world
  defines "s' \<equiv> snd (main e a s)"
  assumes "check_backup_dir e = Inr ()" and "pidfile_res e = Acquired"
    and "fst (get_user_repositories e (user a) s) = Inr names"
    and "sorted_by_lower names = Inr ns" and "listdir_err e = None"
  shows "fst (main e a s) = ExitOk \<and> exit_code (fst (main e a s)) = 0
     \<and> (\<forall>n\<in>set (filter valid_name ns).
           (GitFetch n \<in> set (calls s')
              \<and> (fetch_ok e n \<or> (ERROR, FailedToSync n) \<in> set (logs s')))
         \<or> (GitClone (clone_url (user a) n) (''.'' @ n) \<in> set (calls s')
              \<and> (published e (clone_url (user a) n) n \<or> (ERROR, FailedToMirror n) \<in> set (logs s'))))
     \<and> (\<forall>f\<in>set (entries s) - set (filter valid_name ns) - {LOCK_FILE_NAME}.
           (DEBUG, Removing f) \<in> set (logs s')
         \<or> (WARNING, RemoveDeletedRepository f) \<in> set (logs s'))
     \<and> (\<forall>f t. f \<notin> set (entries (rm_path e f t))
           \<or> (ERROR, FailedToRemove) \<in> set (logs (rm_path e f t)))"
proof -
  let ?u = "user a"
  let ?R = "filter valid_name ns"
  let ?fs = "cleanup_files (entries (locked_world s)) ?R"
  have l: "fst (get_user_repositories e ?u (locked_world s)) = Inr names"
    using gur_fst[of e ?u "locked_world s" s] assms(4) by simp
  from backup_listed[OF l assms(5,6)] obtain s2 ps where
    "dir s2 = dir (locked_world s) \<and> trace s2 = trace (requested (repos_url ?u) ps (locked_world s))
      \<and> backup e ?u (locked_world s) = (Inr (), mirror_all e ?u ?R (fold (cleanup_file e) ?fs s2))"
    by (elim exE)
  then have b: "backup e ?u (locked_world s)
      = (Inr (), mirror_all e ?u ?R (fold (cleanup_file e) ?fs s2))"
    by simp
  let ?s3 = "fold (cleanup_file e) ?fs s2"
  let ?s4 = "mirror_all e ?u ?R ?s3"
  have m: "main e a s = (ExitOk, release_lock e ?s4)"
    using main_acquired[OF assms(2,3), of a s] by (simp add: b)
  then have s': "s' = release_lock e ?s4" by (simp add: s'_def)
  have up: "set (calls ?s4) \<subseteq> set (calls s')" "set (logs ?s4) \<subseteq> set (logs s')"
    using release_lock_world[of e ?s4] unfolding s' by auto
  have p1: "fst (main e a s) = ExitOk" "exit_code (fst (main e a s)) = 0"
    by (simp_all add: m)
  have p2: "\<forall>n\<in>set ?R.
           (GitFetch n \<in> set (calls s')
              \<and> (fetch_ok e n \<or> (ERROR, FailedToSync n) \<in> set (logs s')))
         \<or> (GitClone (clone_url ?u n) (''.'' @ n) \<in> set (calls s')
              \<and> (published e (clone_url ?u n) n \<or> (ERROR, FailedToMirror n) \<in> set (logs s')))"
  proof
    fix n assume "n \<in> set ?R"
    from mirror_all_outcome[OF this, of e ?u ?s3] up
    show "(GitFetch n \<in> set (calls s')
              \<and> (fetch_ok e n \<or> (ERROR, FailedToSync n) \<in> set (logs s')))
         \<or> (GitClone (clone_url ?u n) (''.'' @ n) \<in> set (calls s')
              \<and> (published e (clone_url ?u n) n \<or> (ERROR, FailedToMirror n) \<in> set (logs s')))"
      by blast
  qed
  have fs: "set ?fs = set (entries s) - set ?R - {LOCK_FILE_NAME}"
    by (auto simp: cleanup_files_set)
  have p3: "\<forall>f\<in>set (entries s) - set ?R - {LOCK_FILE_NAME}.
           (DEBUG, Removing f) \<in> set (logs s')
         \<or> (WARNING, RemoveDeletedRepository f) \<in> set (logs s')"
  proof
    fix f assume "f \<in> set (entries s) - set ?R - {LOCK_FILE_NAME}"
    then have "f \<in> set ?fs" unfolding fs .
    from fold_cleanup_attempted[OF this, of e s2] mirror_all_mono[of ?s3 e ?u ?R] up(2)
    show "(DEBUG, Removing f) \<in> set (logs s')
         \<or> (WARNING, RemoveDeletedRepository f) \<in> set (logs s')"
      by blast
  qed
  have p4: "\<forall>f t. f \<notin> set (entries (rm_path e f t))
           \<or> (ERROR, FailedToRemove) \<in> set (logs (rm_path e f t))"
    using rm_path_logged by blast
  show ?thesis by (intro conjI p1 p2 p3 p4)
qed

text \<open>Every fetch, clone and removal fails, and the status is 0.\<close>

theorem C8_witness:
  "check_backup_dir flaky = Inr () \<and> pidfile_res flaky = Acquired
   \<and> fst (get_user_repositories flaky (user interactive) scenario) = Inr [JStr ''alpha'', JStr ''Beta'']
   \<and> listdir_err flaky = None
   \<and> \<not> fetch_ok flaky ''alpha''
   \<and> fst (main flaky interactive scenario) = ExitOk
   \<and> exit_code (fst (main flaky interactive scenario)) = 0"
proof -
  have h1: "check_backup_dir flaky = Inr ()"
    by (simp add: check_backup_dir_def flaky_def serving_def quiet_def)
  have h2: "pidfile_res flaky = Acquired" and h5: "listdir_err flaky = None"
    and nf: "\<not> fetch_ok flaky ''alpha''"
    by (simp_all add: flaky_def serving_def quiet_def)
  have h3: "fst (get_user_repositories flaky (user interactive) scenario)
      = Inr (map JStr [''alpha'', ''Beta''])"
    by (simp add: get_user_repositories_def max_pages_def upt_conv_Cons get_page_def
        page_result_def flaky_def serving_def quiet_def ok_response_def repo_def set_add_def)
  have h4: "sorted_by_lower (map JStr [''alpha'', ''Beta'']) = Inr (sort_key lower [''alpha'', ''Beta''])"
    by (rule sorted_by_lower_strs)
  note T = C8_failure_isolation[OF h1 h2 h3 h4 h5]
  have r1: "fst (main flaky interactive scenario) = ExitOk"
    by (rule conjunct1[OF T])
  have r2: "exit_code (fst (main flaky interactive scenario)) = 0"
    by (rule conjunct1[OF conjunct2[OF T]])
  from h1 h2 h3 h5 nf r1 r2 show ?thesis by simp
qed

subsection \<open>Rejected names\<close>

text \<open>
  Claim C2 (a local entry that bears a rejected remote name stays on disk) does not hold.
  The user's repository \<^verbatim>\<open>.github\<close> is rejected by the validator; the directory has an
  entry \<^verbatim>\<open>.github\<close>; the run succeeds, calls \<^verbatim>\<open>rmtree\<close> on the entry, and the entry is
  gone afterwards.
\<close>

theorem C2_rejected_entry_deleted:
  "fst (get_user_repositories dot_github ''u'' with_dot_github) = Inr [JStr ''.github'']
   \<and> \<not> valid_name ''.github''
   \<and> ''.github'' \<in> set (entries with_dot_github)
   \<and> fst (backup dot_github ''u'' with_dot_github) = Inr ()
   \<and> Rmtree ''.github'' \<in> set (calls (snd (backup dot_github ''u'' with_dot_github)))
   \<and> ''.github'' \<notin> set (entries (snd (backup dot_github ''u'' with_dot_github)))"
proof -
  have g: "get_user_repositories dot_github ''u'' with_dot_github
      = (Inr [JStr ''.github''],
         requested (repos_url ''u'') [1, 2] with_dot_github)"
    by (simp add: get_user_repositories_def max_pages_def upt_conv_Cons get_page_def
        page_result_def dot_github_def serving_def quiet_def ok_response_def repo_def set_add_def
        requested_def did_def)
  have nv: "\<not> valid_name ''.github''"
    by (simp add: valid_name_def name_first_def alnum_def)
  have inw: "''.github'' \<in> set (entries with_dot_github)"
    by (simp add: entries_def with_dot_github_def start_def)
  have srt: "sorted_by_lower [JStr ''.github''] = Inr [''.github'']"
    by (simp add: sorted_by_lower_def)
  have v: "validate ''u'' [''.github''] (requested (repos_url ''u'') [1, 2] with_dot_github)
      = ([], log ERROR (InvalidRepositoryName ''.github'')
              (log INFO (UserHasRepositories ''u'' 1 [''.github''])
                (requested (repos_url ''u'') [1, 2] with_dot_github)))"
    using nv by (simp add: validate_def valid_name_def)
  let ?s2 = "log ERROR (InvalidRepositoryName ''.github'')
              (log INFO (UserHasRepositories ''u'' 1 [''.github''])
                (requested (repos_url ''u'') [1, 2] with_dot_github))"
  have fs: "cleanup_files (entries ?s2) [] = [''.github'']"
    by (simp add: cleanup_files_def entries_def with_dot_github_def start_def LOCK_FILE_NAME_def)
  have c: "cleanup dot_github [] ?s2 = (Inr (), cleanup_file dot_github ''.github'' ?s2)"
    using fs by (simp add: cleanup_def os_listdir_def dot_github_def serving_def quiet_def)
  have b: "backup dot_github ''u'' with_dot_github = (Inr (), cleanup_file dot_github ''.github'' ?s2)"
    using v c by (simp add: backup_def g srt)
  have r: "calls (cleanup_file dot_github ''.github'' ?s2)
        = calls ?s2 @ [Rmtree ''.github'']"
     "entries (cleanup_file dot_github ''.github'' ?s2) = [''.lock'']"
    by (simp_all add: cleanup_file_def rm_path_def os_lstat_def shutil_rmtree_def startswith_dot_def
        dot_github_def serving_def quiet_def with_dot_github_def start_def entries_def calls_def
        did_def log_def requested_def AList.delete_eq)
  show ?thesis
    using g nv inw b r by simp
qed

text \<open>
  Claim C2 as amended. A remote name that fails validation is not synchronised: the run
  calls no fetch, clone, gc or rename for it. It gives a local entry of that name no
  protection: unless the entry is the lock file, it is in the deletion set of
  \<^verbatim>\<open>_cleanup\<close> and is handed to \<^verbatim>\<open>_rm_path\<close> like every other entry that is not a
  target.
\<close>

theorem C2_rejected_names:
  fixes e :: env and u n :: string and s :: world
  defines "s' \<equiv> snd (backup e u s)"
  assumes "fst (get_user_repositories e u s) = Inr names" and "sorted_by_lower names = Inr ns"
    and "listdir_err e = None" and "n \<in> set ns" and "\<not> valid_name n" and "trace s = []"
  shows "fst (backup e u s) = Inr ()
     \<and> GitFetch n \<notin> set (calls s') \<and> (\<forall>url. GitClone url (''.'' @ n) \<notin> set (calls s'))
     \<and> GitGc (''.'' @ n) \<notin> set (calls s') \<and> Rename (''.'' @ n) n \<notin> set (calls s')
     \<and> (n \<in> set (entries s) \<and> n \<noteq> LOCK_FILE_NAME \<longrightarrow>
           n \<in> set (cleanup_files (entries s) (filter valid_name ns))
           \<and> ((DEBUG, Removing n) \<in> set (logs s')
                \<or> (WARNING, RemoveDeletedRepository n) \<in> set (logs s')))"
proof -
  let ?R = "filter valid_name ns"
  let ?fs = "cleanup_files (entries s) ?R"
  from backup_listed[OF assms(2,3,4)] obtain s2 ps where
    "dir s2 = dir s \<and> trace s2 = trace (requested (repos_url u) ps s)
      \<and> backup e u s = (Inr (), mirror_all e u ?R (fold (cleanup_file e) ?fs s2))"
    by (elim exE)
  then have b: "trace s2 = trace (requested (repos_url u) ps s)"
    "backup e u s = (Inr (), mirror_all e u ?R (fold (cleanup_file e) ?fs s2))"
    by simp_all
  let ?s3 = "fold (cleanup_file e) ?fs s2"
  have s': "s' = mirror_all e u ?R ?s3" by (simp add: s'_def b(2))
  have c2: "calls s2 = map (HttpGet (repos_url u)) ps"
    using b(1) assms(7) by (simp add: calls_def comp_def)
  have nR: "n \<notin> set ?R" using assms(6) by simp
  have cases: "\<And>c. c \<in> set (calls s') \<Longrightarrow>
       (\<exists>p. c = HttpGet (repos_url u) p) \<or> (\<exists>f. c = Rmtree f \<or> c = Unlink f)
       \<or> (\<exists>m\<in>set ?R. c \<in> sync_calls (clone_url u m) m)"
  proof -
    fix c assume "c \<in> set (calls s')"
    then have "c \<in> set (calls ?s3) \<or> (\<exists>m\<in>set ?R. c \<in> sync_calls (clone_url u m) m)"
      unfolding s' by (rule mirror_all_calls)
    moreover have "c \<in> set (calls ?s3) \<Longrightarrow> c \<in> set (calls s2) \<or> (\<exists>f\<in>set ?fs. c = Rmtree f \<or> c = Unlink f)"
      by (rule fold_cleanup_calls)
    ultimately show "(\<exists>p. c = HttpGet (repos_url u) p) \<or> (\<exists>f. c = Rmtree f \<or> c = Unlink f)
       \<or> (\<exists>m\<in>set ?R. c \<in> sync_calls (clone_url u m) m)"
      unfolding c2 by auto
  qed
  have p1: "fst (backup e u s) = Inr ()" by (simp add: b(2))
  have p2: "GitFetch n \<notin> set (calls s')"
    using cases[of "GitFetch n"] nR by (auto simp: sync_calls_def)
  have p3: "\<forall>url. GitClone url (''.'' @ n) \<notin> set (calls s')"
  proof
    fix url show "GitClone url (''.'' @ n) \<notin> set (calls s')"
      using cases[of "GitClone url (''.'' @ n)"] nR by (auto simp: sync_calls_def)
  qed
  have p4: "GitGc (''.'' @ n) \<notin> set (calls s')"
    using cases[of "GitGc (''.'' @ n)"] nR by (auto simp: sync_calls_def)
  have p5: "Rename (''.'' @ n) n \<notin> set (calls s')"
    using cases[of "Rename (''.'' @ n) n"] nR by (auto simp: sync_calls_def)
  have p6: "n \<in> set (entries s) \<and> n \<noteq> LOCK_FILE_NAME \<longrightarrow>
           n \<in> set ?fs
           \<and> ((DEBUG, Removing n) \<in> set (logs s')
                \<or> (WARNING, RemoveDeletedRepository n) \<in> set (logs s'))"
  proof
    assume "n \<in> set (entries s) \<and> n \<noteq> LOCK_FILE_NAME"
    then have m: "n \<in> set ?fs" using nR by (simp add: cleanup_files_set)
    from fold_cleanup_attempted[OF m, of e s2] mirror_all_mono[of ?s3 e u ?R]
    have "(DEBUG, Removing n) \<in> set (logs s')
                \<or> (WARNING, RemoveDeletedRepository n) \<in> set (logs s')"
      unfolding s' by blast
    with m show "n \<in> set ?fs
           \<and> ((DEBUG, Removing n) \<in> set (logs s')
                \<or> (WARNING, RemoveDeletedRepository n) \<in> set (logs s'))"
      by simp
  qed
  show ?thesis by (intro conjI p1 p2 p3 p4 p5 p6)
qed

text \<open>The rejected repository \<^verbatim>\<open>.github\<close> again.\<close>

theorem C2_witness:
  "fst (get_user_repositories dot_github ''u'' with_dot_github) = Inr [JStr ''.github'']
   \<and> listdir_err dot_github = None \<and> \<not> valid_name ''.github'' \<and> trace with_dot_github = []
   \<and> ''.github'' \<in> set (entries with_dot_github) \<and> ''.github'' \<noteq> LOCK_FILE_NAME
   \<and> GitFetch ''.github'' \<notin> set (calls (snd (backup dot_github ''u'' with_dot_github)))
   \<and> ''.github'' \<in> set (cleanup_files (entries with_dot_github) (filter valid_name [''.github'']))"
proof -
  have h1: "fst (get_user_repositories dot_github ''u'' with_dot_github) = Inr [JStr ''.github'']"
    by (simp add: get_user_repositories_def max_pages_def upt_conv_Cons get_page_def
        page_result_def dot_github_def serving_def quiet_def ok_response_def repo_def set_add_def)
  have h2: "sorted_by_lower [JStr ''.github''] = Inr [''.github'']"
    by (simp add: sorted_by_lower_def)
  have h3: "listdir_err dot_github = None"
    by (simp add: dot_github_def serving_def quiet_def)
  have h4: "''.github'' \<in> set [''.github'']" by simp
  have h5: "\<not> valid_name ''.github''"
    by (simp add: valid_name_def name_first_def alnum_def)
  have h6: "trace with_dot_github = []" by (simp add: with_dot_github_def start_def)
  have i1: "''.github'' \<in> set (entries with_dot_github)"
    by (simp add: entries_def with_dot_github_def start_def)
  have i2: "''.github'' \<noteq> LOCK_FILE_NAME" by (simp add: LOCK_FILE_NAME_def)
  note T = C2_rejected_names[OF h1 h2 h3 h4 h5 h6]
  have r1: "GitFetch ''.github'' \<notin> set (calls (snd (backup dot_github ''u'' with_dot_github)))"
    by (rule conjunct1[OF conjunct2[OF T]])
  have "''.github'' \<in> set (entries with_dot_github) \<and> ''.github'' \<noteq> LOCK_FILE_NAME \<longrightarrow>
           ''.github'' \<in> set (cleanup_files (entries with_dot_github) (filter valid_name [''.github'']))
           \<and> ((DEBUG, Removing ''.github'') \<in> set (logs (snd (backup dot_github ''u'' with_dot_github)))
                \<or> (WARNING, RemoveDeletedRepository ''.github'') \<in> set (logs (snd (backup dot_github ''u'' with_dot_github))))"
    by (rule conjunct2[OF conjunct2[OF conjunct2[OF conjunct2[OF conjunct2[OF T]]]]])
  with i1 i2 have r2: "''.github'' \<in> set (cleanup_files (entries with_dot_github) (filter valid_name [''.github'']))"
    by blast
  show ?thesis by (intro conjI h1 h3 h5 h6 i1 i2 r1 r2)
qed

subsection \<open>Idempotence\<close>







end
